theory Spec2Isabelle
  imports Main "HOL-Library.Word" "HOL-Library.Multiset"
begin

unbundle bit_operations_syntax

section \<open>Data model of faFFTool.py\<close>

text \<open>
  A Python \<open>bytes\<close> object is a list of 8-bit words; Python's unbounded integers are
  \<open>int\<close>. A dictionary of the source is an association list in insertion order whose
  keys are distinct. An entry of the value table is either Python's \<open>None\<close> or a pair
  of key and bitmap.
\<close>

type_synonym byte = "8 word"
type_synonym bytes = "byte list"
type_synonym entry = "bytes \<times> bytes"

datatype error =
    ValueError string
  | IndexError string
  | KeyError
  | TypeError
  | ZeroDivisionError
  | OverflowError
  | StructError

definition FNV1PRIME :: int where
  "FNV1PRIME = 0x01000193"

definition FNV1OFFSET :: int where
  "FNV1OFFSET = 0x811c9dc5"

definition FNV1MASK :: int where
  "FNV1MASK = 0x7fffffff"

section \<open>The hash primitive\<close>

text \<open>
  \<open>hashFNV1\<close>, lines 49 to 55. The loop over the bytes of \<open>value\<close> is \<open>hashLoop\<close>;
  a seed of 0 is replaced by the offset before the loop starts.
\<close>

fun hashLoop :: "bytes \<Rightarrow> int \<Rightarrow> int" where
  "hashLoop [] seed = seed"
| "hashLoop (valueByte # rest) seed =
     hashLoop rest (((seed * FNV1PRIME) AND FNV1MASK) XOR uint valueByte)"

definition hashFNV1 :: "bytes \<Rightarrow> int \<Rightarrow> int" where
  "hashFNV1 val seed = hashLoop val (if seed = 0 then FNV1OFFSET else seed)"

section \<open>The binary codec\<close>

subsection \<open>Integers and byte strings\<close>

text \<open>
  \<open>int.to_bytes(length, "big")\<close> raises \<open>OverflowError\<close> on a negative value and on
  one that does not fit; \<open>be_bytes\<close> writes the big-endian digits. \<open>from_bytes\<close> reads
  an unsigned big-endian integer, as the \<open>B\<close> and \<open>I\<close> fields of \<open>struct.unpack\<close> do.
\<close>

fun be_bytes :: "nat \<Rightarrow> int \<Rightarrow> bytes" where
  "be_bytes 0 x = []"
| "be_bytes (Suc len) x = be_bytes len (x div 256) @ [word_of_int x]"

definition to_bytes :: "int \<Rightarrow> nat \<Rightarrow> error + bytes" where
  "to_bytes x len =
     (if x < 0 \<or> 256 ^ len \<le> x then Inl OverflowError else Inr (be_bytes len x))"

definition from_bytes :: "bytes \<Rightarrow> int" where
  "from_bytes d = foldl (\<lambda>acc b. acc * 256 + uint b) 0 d"

text \<open>
  \<open>struct.unpack\<close> raises \<open>struct.error\<close> unless the buffer has exactly the size of
  the format: 6 bytes for \<open>">BBI"\<close>, 4 for \<open>">i"\<close> (a signed 32-bit integer) and
  \<open>3 + sz\<close> for \<open>">3s{sz}s"\<close>.
\<close>

definition unpack_BBI :: "bytes \<Rightarrow> error + (nat \<times> nat \<times> nat)" where
  "unpack_BBI d =
     (if length d \<noteq> 6 then Inl StructError
      else Inr (unat (d ! 0), unat (d ! 1), nat (from_bytes (drop 2 d))))"

definition unpack_i :: "bytes \<Rightarrow> error + int" where
  "unpack_i d =
     (if length d \<noteq> 4 then Inl StructError
      else Inr (let u = from_bytes d in if 2 ^ 31 \<le> u then u - 2 ^ 32 else u))"

definition unpack_3s_s :: "nat \<Rightarrow> bytes \<Rightarrow> error + entry" where
  "unpack_3s_s sz d =
     (if length d \<noteq> 3 + sz then Inl StructError else Inr (take 3 d, drop 3 d))"

text \<open>
  The input file is the list of the bytes not yet read: \<open>read k\<close> returns at most
  \<open>k\<close> bytes and the rest of the file.
\<close>

definition read :: "nat \<Rightarrow> bytes \<Rightarrow> bytes \<times> bytes" where
  "read k f = (take k f, drop k f)"

subsection \<open>Decoding: loadFile\<close>

text \<open>
  What \<open>loadFile\<close> returns: width, height, number of entries and the two tables. The
  entries of the value table it reads are never \<open>None\<close>.
\<close>

record artifact =
  width :: nat
  height :: nat
  nChars :: nat
  tabG :: "int list"
  tabV :: "entry option list"

text \<open>The two list comprehensions of lines 167 and 173, one read per entry.\<close>

fun readG :: "nat \<Rightarrow> bytes \<Rightarrow> error + (int list \<times> bytes)" where
  "readG 0 f = Inr ([], f)"
| "readG (Suc i) f =
     (let (d, f') = read 4 f in
      case unpack_i d of
        Inl e \<Rightarrow> Inl e
      | Inr g \<Rightarrow>
          (case readG i f' of
             Inl e \<Rightarrow> Inl e
           | Inr (G, f'') \<Rightarrow> Inr (g # G, f'')))"

fun readV :: "nat \<Rightarrow> nat \<Rightarrow> bytes \<Rightarrow> error + (entry option list \<times> bytes)" where
  "readV sizeEntryV 0 f = Inr ([], f)"
| "readV sizeEntryV (Suc i) f =
     (let (d, f') = read sizeEntryV f in
      case unpack_3s_s (sizeEntryV - 3) d of
        Inl e \<Rightarrow> Inl e
      | Inr v \<Rightarrow>
          (case readV sizeEntryV i f' of
             Inl e \<Rightarrow> Inl e
           | Inr (V, f'') \<Rightarrow> Inr (Some v # V, f'')))"

text \<open>
  \<open>loadFile\<close>, lines 150 to 175. The result carries the unread rest of the file, which
  is where the file object of the source stands when the function returns.
\<close>

definition loadFile :: "bytes \<Rightarrow> error + (artifact \<times> bytes)" where
  "loadFile infile =
     (let (sig, f1) = read 2 infile in
      if sig \<noteq> [0xfa, 0xff] then Inl (ValueError ''File signature not found.'')
      else
        let (hdr, f2) = read 6 f1 in
        case unpack_BBI hdr of
          Inl e \<Rightarrow> Inl e
        | Inr (w, h, n) \<Rightarrow>
            if w = 0 then Inl (IndexError ''Zero width detected.'')
            else if h = 0 then Inl (IndexError ''Zero height detected.'')
            else if n = 0 then Inl (IndexError ''Empty table detected.'')
            else
              (case readG n f2 of
                 Inl e \<Rightarrow> Inl e
               | Inr (G, f3) \<Rightarrow>
                   let sizeEntryV = w * ((h - 1) div 8 + 1) + 3 in
                   (case readV sizeEntryV n f3 of
                      Inl e \<Rightarrow> Inl e
                    | Inr (V, f4) \<Rightarrow>
                        Inr (\<lparr>width = w, height = h, nChars = n, tabG = G, tabV = V\<rparr>, f4))))"

subsection \<open>Encoding: the output bytes of createFile\<close>

text \<open>
  Lines 342 to 359 of \<open>createFile\<close>. A negative entry of G is replaced by its 32-bit
  two's complement before it is written; an entry of V that is \<open>None\<close> cannot be
  subscripted.
\<close>

definition twosComplement32 :: "int \<Rightarrow> int" where
  "twosComplement32 g = (if g < 0 then 0x100000000 + g else g)"

fun extendG :: "int list \<Rightarrow> bytes \<Rightarrow> error + bytes" where
  "extendG [] output = Inr output"
| "extendG (g # G) output =
     (case to_bytes (twosComplement32 g) 4 of
        Inl e \<Rightarrow> Inl e
      | Inr d \<Rightarrow> extendG G (output @ d))"

fun extendV :: "entry option list \<Rightarrow> bytes \<Rightarrow> error + bytes" where
  "extendV [] output = Inr output"
| "extendV (None # V) output = Inl TypeError"
| "extendV (Some (k, bm) # V) output = extendV V (output @ k @ bm)"

definition createFile_output ::
  "int \<Rightarrow> int \<Rightarrow> int list \<Rightarrow> entry option list \<Rightarrow> error + bytes" where
  "createFile_output w h G V =
     (case to_bytes w 1 of
        Inl e \<Rightarrow> Inl e
      | Inr wb \<Rightarrow>
          (case to_bytes h 1 of
             Inl e \<Rightarrow> Inl e
           | Inr hb \<Rightarrow>
               (case to_bytes (int (length G)) 4 of
                  Inl e \<Rightarrow> Inl e
                | Inr nb \<Rightarrow>
                    (case extendG G ([0xfa, 0xff] @ wb @ hb @ nb) of
                       Inl e \<Rightarrow> Inl e
                     | Inr output \<Rightarrow> extendV V output))))"

subsection \<open>Font artifacts and the size of their encoding\<close>

text \<open>
  A Font Artifact as the format describes it: width and height in [1, 255], at least one
  entry and no more than the 4-byte count field can hold, both tables of that length,
  every entry of G a signed 32-bit integer, every entry of V a 3-byte key with a bitmap of
  \<open>width * ceil(height / 8)\<close> bytes.
\<close>

definition wfEntry :: "nat \<Rightarrow> entry option \<Rightarrow> bool" where
  "wfEntry sz v =
     (case v of None \<Rightarrow> False | Some (k, bm) \<Rightarrow> length k = 3 \<and> length bm = sz)"

definition isInt32 :: "int \<Rightarrow> bool" where
  "isInt32 g \<longleftrightarrow> - (2 ^ 31) \<le> g \<and> g < 2 ^ 31"

definition wfArtifact :: "artifact \<Rightarrow> bool" where
  "wfArtifact a \<longleftrightarrow>
     1 \<le> width a \<and> width a \<le> 255 \<and> 1 \<le> height a \<and> height a \<le> 255 \<and>
     1 \<le> nChars a \<and> nChars a < 2 ^ 32 \<and>
     length (tabG a) = nChars a \<and> length (tabV a) = nChars a \<and>
     list_all isInt32 (tabG a) \<and>
     list_all (wfEntry (width a * ((height a + 7) div 8))) (tabV a)"

definition encG :: "int list \<Rightarrow> bytes" where
  "encG G = concat (map (\<lambda>g. be_bytes 4 (twosComplement32 g)) G)"

definition encV :: "entry option list \<Rightarrow> bytes" where
  "encV V = concat (map (\<lambda>v. case v of None \<Rightarrow> [] | Some (k, bm) \<Rightarrow> k @ bm) V)"

definition fileSize :: "nat \<Rightarrow> nat \<Rightarrow> nat \<Rightarrow> nat" where
  "fileSize w h n = 8 + 4 * n + n * (3 + w * ((h - 1) div 8 + 1))"

section \<open>The builder: createMinimalPerfectHash\<close>

text \<open>
  The dictionary \<open>source\<close> is an association list with distinct keys, in insertion
  order; \<open>source[key]\<close> raises \<open>KeyError\<close> on a missing key.
\<close>

definition dict_get :: "entry list \<Rightarrow> bytes \<Rightarrow> error + bytes" where
  "dict_get source key = (case map_of source key of None \<Rightarrow> Inl KeyError | Some bm \<Rightarrow> Inr bm)"

text \<open>
  \<open>hashFNV1(key) % nKeys\<close> with the default seed, and \<open>hashFNV1(key, seed) % nKeys\<close>.
  Python's \<open>%\<close> with a positive modulus is never negative, as \<open>mod\<close> on \<open>int\<close>.
\<close>

definition primary :: "nat \<Rightarrow> bytes \<Rightarrow> nat" where
  "primary nKeys key = nat (hashFNV1 key FNV1OFFSET mod int nKeys)"

definition secondary :: "nat \<Rightarrow> bytes \<Rightarrow> int \<Rightarrow> nat" where
  "secondary nKeys key seed = nat (hashFNV1 key seed mod int nKeys)"

text \<open>Step 1, lines 77 and 78: every key is appended to the bucket of its hash.\<close>

fun fillBuckets :: "nat \<Rightarrow> bytes list \<Rightarrow> bytes list list \<Rightarrow> bytes list list" where
  "fillBuckets nKeys [] buckets = buckets"
| "fillBuckets nKeys (key # keys) buckets =
     fillBuckets nKeys keys
       (buckets[primary nKeys key := buckets ! primary nKeys key @ [key]])"

text \<open>
  Step 2, line 81: \<open>buckets.sort(key=len, reverse=True)\<close>, a stable sort by descending
  length.
\<close>

definition sortBuckets :: "bytes list list \<Rightarrow> bytes list list" where
  "sortBuckets buckets = sort_key (\<lambda>bucket. - int (length bucket)) buckets"

text \<open>
  The inner loop of step 3, lines 90 to 102: the search for a seed that sends every key of
  the bucket to a free slot of its own. A collision starts the bucket again with the next
  seed, and raises once the seed has reached the mask.
\<close>

function findSeed ::
  "nat \<Rightarrow> entry option list \<Rightarrow> bytes list \<Rightarrow> int \<Rightarrow> nat \<Rightarrow> nat list \<Rightarrow> nat \<Rightarrow>
   error + (int \<times> nat list \<times> nat)" where
  "findSeed nKeys V bucket seed k slots nCollisions =
     (if k < length bucket then
        (let slot = secondary nKeys (bucket ! k) seed in
         if V ! slot \<noteq> None \<or> slot \<in> set slots then
           (if FNV1MASK \<le> seed then Inl (ValueError ''Hash seed exceeded 32 bit.'')
            else findSeed nKeys V bucket (seed + 1) 0 [] (nCollisions + 1))
         else findSeed nKeys V bucket seed (k + 1) (slots @ [slot]) nCollisions)
      else Inr (seed, slots, nCollisions))"
  by pat_completeness auto
termination
  by (relation "measures [\<lambda>(n, V, b, seed, k, s, c). nat (FNV1MASK - seed),
                          \<lambda>(n, V, b, seed, k, s, c). length b - k]") auto

declare findSeed.simps [simp del]

text \<open>Lines 105 to 107: the keys of the bucket go to the slots found.\<close>

fun spread ::
  "entry list \<Rightarrow> bytes list \<Rightarrow> nat \<Rightarrow> nat list \<Rightarrow> entry option list \<Rightarrow>
   error + entry option list" where
  "spread source bucket k [] V = Inr V"
| "spread source bucket k (slot # slots) V =
     (case dict_get source (bucket ! k) of
        Inl e \<Rightarrow> Inl e
      | Inr bm \<Rightarrow> spread source bucket (k + 1) slots (V[slot := Some (bucket ! k, bm)]))"

text \<open>
  One round of the loop of step 3, lines 85 to 107, on the state \<open>(G, V, nCheck,
  nCollisions)\<close>, and the loop itself, which stops at the first bucket with fewer than
  two keys and returns the buckets that are left.
\<close>

type_synonym hashState = "int list \<times> entry option list \<times> nat \<times> nat"

definition placeBucket ::
  "nat \<Rightarrow> entry list \<Rightarrow> bytes list \<Rightarrow> hashState \<Rightarrow> error + hashState" where
  "placeBucket nKeys source bucket st =
     (case st of (G, V, nCheck, nCollisions) \<Rightarrow>
        (case findSeed nKeys V bucket 1 0 [] nCollisions of
           Inl e \<Rightarrow> Inl e
         | Inr (seed, slots, nCollisions') \<Rightarrow>
             (case spread source bucket 0 slots V of
                Inl e \<Rightarrow> Inl e
              | Inr V' \<Rightarrow>
                  Inr (G[primary nKeys (bucket ! 0) := seed], V',
                       nCheck + length slots, nCollisions'))))"

fun step3 ::
  "nat \<Rightarrow> entry list \<Rightarrow> bytes list list \<Rightarrow> hashState \<Rightarrow>
   error + (bytes list list \<times> hashState)" where
  "step3 nKeys source [] st = Inr ([], st)"
| "step3 nKeys source (bucket # buckets) st =
     (if 1 < length bucket then
        (case placeBucket nKeys source bucket st of
           Inl e \<Rightarrow> Inl e
         | Inr st' \<Rightarrow> step3 nKeys source buckets st')
      else Inr (bucket # buckets, st))"

text \<open>
  Step 4, lines 112 to 127. \<open>nextFree\<close> is the scan of lines 116 to 121 for the next
  slot of V that is \<open>None\<close>, starting from \<open>k\<close>; it returns \<open>len(V)\<close> when there is
  none.
\<close>

function nextFree :: "entry option list \<Rightarrow> nat \<Rightarrow> nat" where
  "nextFree V k =
     (if k < length V then (if V ! k = None then k else nextFree V (k + 1)) else k)"
  by pat_completeness auto
termination
  by (relation "measure (\<lambda>(V, k). length V - k)") auto

declare nextFree.simps [simp del]

function step4 ::
  "nat \<Rightarrow> entry list \<Rightarrow> bytes list list \<Rightarrow> nat \<Rightarrow> int list \<Rightarrow> entry option list \<Rightarrow> nat \<Rightarrow>
   error + (int list \<times> entry option list \<times> nat)" where
  "step4 nKeys source [] k G V nCheck = Inr (G, V, nCheck)"
| "step4 nKeys source (bucket # buckets) k G V nCheck =
     (if 0 < length bucket then
        (let slot = nextFree V k in
         if length V \<le> slot then Inl (IndexError ''No free slots left.'')
         else
           (case dict_get source (bucket ! 0) of
              Inl e \<Rightarrow> Inl e
            | Inr bm \<Rightarrow>
                step4 nKeys source buckets slot
                  (G[primary nKeys (bucket ! 0) := - int slot - 1])
                  (V[slot := Some (bucket ! 0, bm)]) (nCheck + 1)))
      else Inr (G, V, nCheck))"
  by pat_completeness auto
termination
  by (relation "measure (\<lambda>(n, s, buckets, k, G, V, c). length buckets)") auto

text \<open>\<open>createMinimalPerfectHash\<close>, lines 58 to 134.\<close>

definition createMinimalPerfectHash ::
  "entry list \<Rightarrow> error + (int list \<times> entry option list \<times> nat)" where
  "createMinimalPerfectHash source =
     (let nKeys = length source;
          buckets = sortBuckets (fillBuckets nKeys (map fst source) (replicate nKeys []))
      in case step3 nKeys source buckets (replicate nKeys 0, replicate nKeys None, 0, 0) of
           Inl e \<Rightarrow> Inl e
         | Inr (buckets', G, V, nCheck, nCollisions) \<Rightarrow>
             (case step4 nKeys source buckets' 0 G V nCheck of
                Inl e \<Rightarrow> Inl e
              | Inr (G', V', nCheck') \<Rightarrow>
                  if nKeys = nCheck' then Inr (G', V', nCollisions)
                  else Inl (ValueError
                    ''Mismatch between number of keys and number of processed keys.'')))"

section \<open>The lookup: lookUp\<close>

text \<open>
  \<open>lookUp\<close>, lines 137 to 147. The modulus raises on \<open>nKeys = 0\<close>, the two
  subscripts raise out of range, and an entry that is \<open>None\<close> cannot be subscripted.
\<close>

definition lookUp :: "nat \<Rightarrow> int list \<Rightarrow> entry option list \<Rightarrow> bytes \<Rightarrow> error + bytes" where
  "lookUp nKeys G V key =
     (if nKeys = 0 then Inl ZeroDivisionError
      else if length G \<le> primary nKeys key then Inl (IndexError ''list index out of range'')
      else
        (let g = G ! primary nKeys key;
             v = (if g < 0 then nat (- g - 1) else secondary nKeys key g)
         in if length V \<le> v then Inl (IndexError ''list index out of range'')
            else
              (case V ! v of
                 None \<Rightarrow> Inl TypeError
               | Some (storedKey, bm) \<Rightarrow> if storedKey = key then Inr bm else Inl KeyError)))"

section \<open>Notions used to state the properties of the builder\<close>

text \<open>
  The bucket of index \<open>i\<close>: the keys whose hash with the default seed is \<open>i\<close>, in the
  order of the dictionary.
\<close>

definition bucketOf :: "nat \<Rightarrow> bytes list \<Rightarrow> nat \<Rightarrow> bytes list" where
  "bucketOf nKeys keys i = filter (\<lambda>key. primary nKeys key = i) keys"

text \<open>
  A seed is good for a bucket when it sends the keys of the bucket to pairwise distinct
  slots that are all free in V.
\<close>

definition seedOK :: "nat \<Rightarrow> entry option list \<Rightarrow> bytes list \<Rightarrow> int \<Rightarrow> bool" where
  "seedOK nKeys V bucket seed \<longleftrightarrow>
     distinct (map (\<lambda>key. secondary nKeys key seed) bucket) \<and>
     (\<forall>key \<in> set bucket. V ! secondary nKeys key seed = None)"

text \<open>The slot of V that the two tables assign to a key, as \<open>lookUp\<close> computes it.\<close>

definition resolve :: "nat \<Rightarrow> int list \<Rightarrow> bytes \<Rightarrow> nat" where
  "resolve nKeys G key =
     (let g = G ! primary nKeys key
      in if g < 0 then nat (- g - 1) else secondary nKeys key g)"

text \<open>
  The state of the builder between two buckets. \<open>idx\<close> lists the indices of the buckets
  that are still to be processed; it is sorted when the lengths of their buckets descend.
  The invariant: every key of a bucket already processed is found at the slot the tables
  assign to it, every used slot holds an entry of such a key, \<open>nCheck\<close> counts the used
  slots and the keys placed, the entry of G is 0 for a bucket to be processed, a seed for
  a processed bucket of two or more keys and a negative direct slot for a processed
  bucket of one key.
\<close>

definition sortedIdx :: "nat \<Rightarrow> bytes list \<Rightarrow> nat list \<Rightarrow> bool" where
  "sortedIdx n keys idx \<longleftrightarrow> sorted (map (\<lambda>i. - int (length (bucketOf n keys i))) idx)"

definition bucketClass :: "nat \<Rightarrow> bytes list \<Rightarrow> int list \<Rightarrow> nat \<Rightarrow> bool" where
  "bucketClass n keys G i \<longleftrightarrow>
     (2 \<le> length (bucketOf n keys i) \<and> 1 \<le> G ! i \<and> G ! i \<le> FNV1MASK) \<or>
     (length (bucketOf n keys i) = 1 \<and> - int n \<le> G ! i \<and> G ! i \<le> - 1)"

definition buildInv ::
  "nat \<Rightarrow> entry list \<Rightarrow> nat list \<Rightarrow> int list \<Rightarrow> entry option list \<Rightarrow> nat \<Rightarrow> bool" where
  "buildInv n src idx G V nCheck \<longleftrightarrow>
     length G = n \<and> length V = n \<and>
     (\<forall>k bm. (k, bm) \<in> set src \<longrightarrow> primary n k \<notin> set idx \<longrightarrow>
        resolve n G k < n \<and> V ! resolve n G k = Some (k, bm)) \<and>
     (\<forall>j e. j < n \<longrightarrow> V ! j = Some e \<longrightarrow> e \<in> set src \<and> primary n (fst e) \<notin> set idx) \<and>
     nCheck = card {j. j < n \<and> V ! j \<noteq> None} \<and>
     nCheck = card {k \<in> set (map fst src). primary n k \<notin> set idx} \<and>
     (\<forall>i \<in> set idx. G ! i = 0) \<and>
     (\<forall>i. i < n \<longrightarrow> i \<notin> set idx \<longrightarrow> bucketClass n (map fst src) G i)"

text \<open>
  What a successful build guarantees about the tables: both have one entry per key, every
  key of the dictionary is found with its bitmap at the slot the tables assign to it,
  every slot holds an entry of the dictionary, and the entry of G is 0 for an empty
  bucket, a seed for a bucket of two or more keys and a negative direct slot for a bucket
  of one key.
\<close>

definition tablesOK :: "entry list \<Rightarrow> int list \<Rightarrow> entry option list \<Rightarrow> bool" where
  "tablesOK src G V \<longleftrightarrow>
     length G = length src \<and> length V = length src \<and>
     (\<forall>k bm. (k, bm) \<in> set src \<longrightarrow>
        resolve (length src) G k < length src \<and>
        V ! resolve (length src) G k = Some (k, bm)) \<and>
     (\<forall>j < length src. \<exists>e \<in> set src. V ! j = Some e) \<and>
     (\<forall>i < length src.
        (bucketOf (length src) (map fst src) i = [] \<and> G ! i = 0) \<or>
        bucketClass (length src) (map fst src) G i)"

section \<open>Properties of the hash primitive\<close>

lemma hash_step_range:
  "0 \<le> ((s * FNV1PRIME) AND FNV1MASK) XOR uint (b :: byte) \<and>
   ((s * FNV1PRIME) AND FNV1MASK) XOR uint b \<le> FNV1MASK"
proof -
  let ?a = "(s * FNV1PRIME) AND FNV1MASK"
  have a0: "0 \<le> ?a"
    by (simp add: FNV1MASK_def)
  have a1: "?a < 2 ^ 31"
  proof -
    have "?a \<le> FNV1MASK"
      by (rule AND_upper2) (simp add: FNV1MASK_def)
    then show ?thesis
      by (simp add: FNV1MASK_def)
  qed
  have b0: "0 \<le> uint b"
    by simp
  have "uint b < 2 ^ 8"
    using uint_bounded [of b] by simp
  also have "(2::int) ^ 8 < 2 ^ 31"
    by simp
  finally have b1: "uint b < 2 ^ 31" .
  have "?a XOR uint b < 2 ^ 31"
    using a0 a1 b1 by (rule XOR_upper)
  moreover have "0 \<le> ?a XOR uint b"
    using a0 b0 by simp
  ultimately show ?thesis
    by (simp add: FNV1MASK_def)
qed

lemma hashLoop_range:
  "val \<noteq> [] \<Longrightarrow> 0 \<le> hashLoop val s \<and> hashLoop val s \<le> FNV1MASK"
proof (induction val arbitrary: s)
  case Nil
  then show ?case by simp
next
  case (Cons b rest)
  show ?case
  proof (cases rest)
    case Nil
    then show ?thesis
      using hash_step_range [of s b] by simp
  next
    case (Cons c cs)
    then have "rest \<noteq> []" by simp
    from Cons.IH [OF this] show ?thesis by simp
  qed
qed

lemma hashFNV1_range:
  "val \<noteq> [] \<Longrightarrow> 0 \<le> hashFNV1 val s \<and> hashFNV1 val s \<le> FNV1MASK"
  unfolding hashFNV1_def by (rule hashLoop_range)

text \<open>
  Claim C7, as stated: the result of the hash lies in [0, 0x7FFFFFFF] for every byte
  sequence, the empty one included, and every seed. The empty sequence refutes it: the
  loop body never runs, so the seed is returned as it is, and the seed 0 becomes the
  offset 0x811c9dc5, which is above 0x7FFFFFFF.
\<close>

theorem C7_hash_empty_counterexample:
  "\<not> (0 \<le> hashFNV1 [] 0 \<and> hashFNV1 [] 0 \<le> 0x7FFFFFFF)"
  by (simp add: hashFNV1_def FNV1OFFSET_def)

text \<open>
  Claim C7, amended: for every non-empty byte sequence and every seed the result of the
  hash lies in [0, 0x7FFFFFFF]; for the empty sequence the result is the seed the loop
  starts from (the offset 0x811c9dc5 when the given seed is 0).
\<close>

theorem C7_hash_range:
  "(val \<noteq> [] \<longrightarrow> 0 \<le> hashFNV1 val seed \<and> hashFNV1 val seed \<le> 0x7FFFFFFF) \<and>
   hashFNV1 [] seed = (if seed = 0 then 0x811c9dc5 else seed)"
  using hashFNV1_range [of val seed]
  by (simp add: hashFNV1_def FNV1MASK_def FNV1OFFSET_def)

theorem C7_hash_range_witness:
  "[0x00, 0xFF, 0xFD :: byte] \<noteq> [] \<and>
   0 \<le> hashFNV1 [0x00, 0xFF, 0xFD] 1 \<and> hashFNV1 [0x00, 0xFF, 0xFD] 1 \<le> 0x7FFFFFFF \<and>
   hashFNV1 [] 7 = 7"
  using C7_hash_range [of "[0x00, 0xFF, 0xFD]" 1] C7_hash_range [of "[]" 7]
  by simp

text \<open>
  Claim C8: the hash is a function of its two arguments (two calls on the same byte
  sequence and seed give the same result), and the seed 0 gives the same result as the
  default offset 0x811c9dc5.
\<close>

theorem C8_hash_deterministic:
  "hashFNV1 b seed = hashFNV1 b seed \<and> hashFNV1 b 0 = hashFNV1 b FNV1OFFSET \<and>
   FNV1OFFSET = 0x811c9dc5"
  by (simp add: hashFNV1_def FNV1OFFSET_def)

section \<open>Properties of the codec\<close>

lemma length_be_bytes: "length (be_bytes len x) = len"
  by (induction len arbitrary: x) simp_all

lemma from_bytes_snoc: "from_bytes (d @ [b]) = from_bytes d * 256 + uint b"
  by (simp add: from_bytes_def)

lemma from_bytes_be_bytes: "from_bytes (be_bytes len x) = x mod 256 ^ len"
proof (induction len arbitrary: x)
  case 0
  show ?case by (simp add: from_bytes_def)
next
  case (Suc len)
  have u: "uint (word_of_int x :: byte) = x mod 256"
    by (simp add: uint_word_of_int)
  have "x mod (256 * 256 ^ len) = 256 * (x div 256 mod 256 ^ len) + x mod 256"
    by (rule zmod_zmult2_eq) simp
  then show ?case
    by (simp add: from_bytes_snoc Suc.IH u)
qed

lemma to_bytes_Inr: "0 \<le> x \<Longrightarrow> x < 256 ^ len \<Longrightarrow> to_bytes x len = Inr (be_bytes len x)"
  by (simp add: to_bytes_def)

lemma unpack_i_be_bytes:
  assumes "- (2 ^ 31) \<le> g" "g < 2 ^ 31"
  shows "unpack_i (be_bytes 4 (twosComplement32 g)) = Inr g"
proof -
  have r: "0 \<le> twosComplement32 g" "twosComplement32 g < 256 ^ 4"
    using assms by (auto simp: twosComplement32_def)
  have "from_bytes (be_bytes 4 (twosComplement32 g)) = twosComplement32 g"
    using r by (simp add: from_bytes_be_bytes)
  then show ?thesis
    using assms by (auto simp: unpack_i_def length_be_bytes twosComplement32_def Let_def)
qed


lemma readG_prefix:
  "readG n f = Inr (G, r) \<Longrightarrow>
   \<exists>p. f = p @ r \<and> length p = 4 * n \<and> length G = n \<and> (\<forall>x. readG n (p @ x) = Inr (G, x))"
proof (induction n arbitrary: f G r)
  case 0
  then show ?case by simp
next
  case (Suc n)
  from Suc.prems obtain g G' where
    g: "unpack_i (take 4 f) = Inr g" and
    rest: "readG n (drop 4 f) = Inr (G', r)" and
    G: "G = g # G'"
    by (auto simp: read_def split: sum.splits prod.splits)
  from g have len: "length (take 4 f) = 4"
    by (auto simp: unpack_i_def split: if_splits)
  from Suc.IH [OF rest] obtain p where
    p: "drop 4 f = p @ r" "length p = 4 * n" "length G' = n"
       "\<forall>x. readG n (p @ x) = Inr (G', x)"
    by blast
  have f: "f = (take 4 f @ p) @ r"
    using p(1) append_take_drop_id [of 4 f] by simp
  have "readG (Suc n) ((take 4 f @ p) @ x) = Inr (G, x)" for x
    using len g p(4) G by (simp add: read_def)
  with f len p(2,3) G show ?case
    by (intro exI [of _ "take 4 f @ p"]) simp
qed

lemma readG_total: "4 * n \<le> length f \<Longrightarrow> \<exists>G r. readG n f = Inr (G, r)"
proof (induction n arbitrary: f)
  case 0
  then show ?case by simp
next
  case (Suc n)
  then have "4 * n \<le> length (drop 4 f)" by simp
  from Suc.IH [OF this] obtain G r where "readG n (drop 4 f) = Inr (G, r)"
    by blast
  moreover have "length (take 4 f) = 4"
    using Suc.prems by simp
  ultimately show ?case
    by (simp add: read_def unpack_i_def)
qed

lemma readV_prefix:
  "readV sz n f = Inr (V, r) \<Longrightarrow> 3 \<le> sz \<Longrightarrow>
   \<exists>p. f = p @ r \<and> length p = n * sz \<and> length V = n \<and> (\<forall>x. readV sz n (p @ x) = Inr (V, x))"
proof (induction n arbitrary: f V r)
  case 0
  then show ?case by simp
next
  case (Suc n)
  from Suc.prems obtain v V' where
    v: "unpack_3s_s (sz - 3) (take sz f) = Inr v" and
    rest: "readV sz n (drop sz f) = Inr (V', r)" and
    V: "V = Some v # V'"
    by (auto simp: read_def split: sum.splits prod.splits)
  from v Suc.prems(2) have len: "length (take sz f) = sz"
    by (auto simp: unpack_3s_s_def split: if_splits)
  from Suc.IH [OF rest Suc.prems(2)] obtain p where
    p: "drop sz f = p @ r" "length p = n * sz" "length V' = n"
       "\<forall>x. readV sz n (p @ x) = Inr (V', x)"
    by blast
  have f: "f = (take sz f @ p) @ r"
    using p(1) append_take_drop_id [of sz f] by simp
  have "readV sz (Suc n) ((take sz f @ p) @ x) = Inr (V, x)" for x
    using len v p(4) V by (simp add: read_def)
  with f len p(2,3) V show ?case
    by (intro exI [of _ "take sz f @ p"]) simp
qed

lemma readV_total:
  "n * sz \<le> length f \<Longrightarrow> 3 \<le> sz \<Longrightarrow> \<exists>V r. readV sz n f = Inr (V, r)"
proof (induction n arbitrary: f)
  case 0
  then show ?case by simp
next
  case (Suc n)
  then have "n * sz \<le> length (drop sz f)" by simp
  from Suc.IH [OF this Suc.prems(2)] obtain V r where "readV sz n (drop sz f) = Inr (V, r)"
    by blast
  moreover have "length (take sz f) = sz"
    using Suc.prems by simp
  ultimately show ?case
    using Suc.prems(2) by (simp add: read_def unpack_3s_s_def)
qed


lemma ceil8: "h \<noteq> 0 \<Longrightarrow> (h - 1) div 8 + 1 = (h + 7) div (8::nat)"
  by (cases h) simp_all

lemma loadFile_prefix:
  assumes "loadFile f = Inr (a, r)"
  shows "\<exists>p. f = p @ r \<and> length p = fileSize (width a) (height a) (nChars a) \<and>
             (\<forall>x. loadFile (p @ x) = Inr (a, x)) \<and>
             width a \<noteq> 0 \<and> height a \<noteq> 0 \<and> nChars a \<noteq> 0 \<and>
             length (tabG a) = nChars a \<and> length (tabV a) = nChars a"
proof -
  let ?sig = "take 2 f" and ?hdr = "take 6 (drop 2 f)" and ?f2 = "drop 6 (drop 2 f)"
  from assms have sig: "?sig = [0xfa, 0xff]"
    by (auto simp: loadFile_def read_def split: if_splits)
  from assms sig obtain w h n where hdr: "unpack_BBI ?hdr = Inr (w, h, n)"
    by (auto simp: loadFile_def read_def split: if_splits sum.splits)
  from assms sig hdr have nz: "w \<noteq> 0" "h \<noteq> 0" "n \<noteq> 0"
    by (auto simp: loadFile_def read_def split: if_splits)
  let ?sz = "w * ((h - 1) div 8 + 1) + 3"
  from assms sig hdr nz obtain G f3 where G: "readG n ?f2 = Inr (G, f3)"
    by (auto simp: loadFile_def read_def split: sum.splits)
  from assms sig hdr nz G obtain V where V: "readV ?sz n f3 = Inr (V, r)"
    and a: "a = \<lparr>width = w, height = h, nChars = n, tabG = G, tabV = V\<rparr>"
    by (auto simp: loadFile_def read_def Let_def split: sum.splits)
  from readG_prefix [OF G] obtain pG where
    pG: "?f2 = pG @ f3" "length pG = 4 * n" "\<forall>x. readG n (pG @ x) = Inr (G, x)"
      "length G = n"
    by blast
  have "3 \<le> ?sz" by simp
  from readV_prefix [OF V this] obtain pV where
    pV: "f3 = pV @ r" "length pV = n * ?sz" "\<forall>x. readV ?sz n (pV @ x) = Inr (V, x)"
      "length V = n"
    by blast
  from sig have l2: "length ?sig = 2" by simp
  from hdr have l6: "length ?hdr = 6"
    by (auto simp: unpack_BBI_def split: if_splits)
  let ?p = "?sig @ ?hdr @ pG @ pV"
  have "f = ?sig @ drop 2 f" by simp
  also have "drop 2 f = ?hdr @ ?f2" by (simp only: append_take_drop_id)
  finally have f: "f = ?p @ r"
    using pG(1) pV(1) by simp
  have len: "length ?p = fileSize w h n"
    using l2 l6 pG(2) pV(2) by (simp add: fileSize_def algebra_simps)
  have "loadFile (?p @ x) = Inr (a, x)" for x
  proof -
    have r1: "read 2 (?p @ x) = (?sig, ?hdr @ pG @ pV @ x)"
      using l2 by (simp add: read_def)
    have r2: "read 6 (?hdr @ pG @ pV @ x) = (?hdr, pG @ pV @ x)"
      using l6 by (simp add: read_def)
    show ?thesis
      unfolding loadFile_def r1
      using sig hdr nz pG(3) pV(3) a
      by (simp add: r2 del: take_drop drop_drop)
  qed
  with f len a nz pG(4) pV(4) show ?thesis
    by (intro exI [of _ ?p]) simp
qed

lemma loadFile_total:
  assumes w: "wb \<noteq> 0" and h: "hb \<noteq> 0"
    and n: "from_bytes [n3, n2, n1, n0] \<noteq> 0"
    and len: "fileSize (unat wb) (unat hb) (nat (from_bytes [n3, n2, n1, n0])) \<le> 8 + length body"
  shows "\<exists>G V r. loadFile (0xfa # 0xff # wb # hb # n3 # n2 # n1 # n0 # body) =
           Inr (\<lparr>width = unat wb, height = unat hb,
                  nChars = nat (from_bytes [n3, n2, n1, n0]), tabG = G, tabV = V\<rparr>, r)"
proof -
  define w' h' n' where "w' = unat wb" and "h' = unat hb"
    and "n' = nat (from_bytes [n3, n2, n1, n0])"
  let ?sz = "w' * ((h' - 1) div 8 + 1) + 3"
  have hdr: "unpack_BBI [wb, hb, n3, n2, n1, n0] = Inr (w', h', n')"
    by (simp add: unpack_BBI_def w'_def h'_def n'_def)
  have w0: "w' \<noteq> 0" and h0: "h' \<noteq> 0"
    using w h by (simp_all add: w'_def h'_def unat_eq_0)
  have "0 \<le> from_bytes [n3, n2, n1, n0]"
    by (simp add: from_bytes_def)
  with n have n0: "n' \<noteq> 0"
    by (simp add: n'_def)
  have L: "4 * n' + n' * ?sz \<le> length body"
    using len by (simp add: fileSize_def algebra_simps w'_def h'_def n'_def)
  then have "4 * n' \<le> length body" by simp
  from readG_total [OF this] obtain G f3 where
    G: "readG n' body = Inr (G, f3)" by blast
  from readG_prefix [OF G] have "length body = 4 * n' + length f3"
    by (metis length_append)
  with L have "n' * ?sz \<le> length f3" by simp
  moreover have "3 \<le> ?sz" by simp
  ultimately obtain V r where V: "readV ?sz n' f3 = Inr (V, r)"
    using readV_total by blast
  have "loadFile (0xfa # 0xff # wb # hb # n3 # n2 # n1 # n0 # body) =
      Inr (\<lparr>width = w', height = h', nChars = n', tabG = G, tabV = V\<rparr>, r)"
    using hdr w0 h0 n0 G V by (simp add: loadFile_def read_def)
  then show ?thesis
    unfolding w'_def h'_def n'_def by blast
qed

lemma extendG_ok:
  "list_all isInt32 G \<Longrightarrow> extendG G out = Inr (out @ encG G)"
proof (induction G arbitrary: out)
  case Nil
  show ?case by (simp add: encG_def)
next
  case (Cons g G)
  then have "isInt32 g" and rest: "list_all isInt32 G"
    by simp_all
  then have r: "- (2 ^ 31) \<le> g" "g < 2 ^ 31"
    by (simp_all add: isInt32_def)
  have "to_bytes (twosComplement32 g) 4 = Inr (be_bytes 4 (twosComplement32 g))"
    using r by (intro to_bytes_Inr) (auto simp: twosComplement32_def)
  then show ?case
    using Cons.IH [OF rest] by (simp add: encG_def twosComplement32_def)
qed

lemma readG_encG:
  "list_all isInt32 G \<Longrightarrow>
   readG (length G) (encG G @ x) = Inr (G, x)"
proof (induction G)
  case Nil
  show ?case by (simp add: encG_def)
next
  case (Cons g G)
  then have "isInt32 g" and rest: "list_all isInt32 G"
    by simp_all
  then have r: "- (2 ^ 31) \<le> g" "g < 2 ^ 31"
    by (simp_all add: isInt32_def)
  have e: "encG (g # G) @ x = be_bytes 4 (twosComplement32 g) @ encG G @ x"
    by (simp add: encG_def)
  show ?case
    unfolding e using unpack_i_be_bytes [OF r] Cons.IH [OF rest]
    by (simp add: read_def length_be_bytes)
qed

lemma extendV_ok:
  "list_all (wfEntry sz) V \<Longrightarrow> extendV V out = Inr (out @ encV V)"
proof (induction V arbitrary: out)
  case Nil
  show ?case by (simp add: encV_def)
next
  case (Cons v V)
  then obtain k bm where v: "v = Some (k, bm)"
    by (auto simp: wfEntry_def split: option.splits)
  from Cons.prems have "list_all (wfEntry sz) V" by simp
  from Cons.IH [OF this] show ?case
    by (simp add: v encV_def)
qed

lemma readV_encV:
  "list_all (wfEntry sz) V \<Longrightarrow> readV (sz + 3) (length V) (encV V @ x) = Inr (V, x)"
proof (induction V)
  case Nil
  show ?case by (simp add: encV_def)
next
  case (Cons v V)
  then obtain k bm where v: "v = Some (k, bm)" and l: "length k = 3" "length bm = sz"
    by (auto simp: wfEntry_def split: option.splits)
  from Cons.prems have rest: "list_all (wfEntry sz) V" by simp
  have e: "encV (v # V) @ x = (k @ bm) @ encV V @ x"
    by (simp add: encV_def v)
  show ?case
    unfolding e using Cons.IH [OF rest] l
    by (simp add: read_def unpack_3s_s_def v)
qed

lemma encode_decode:
  assumes "wfArtifact a"
  shows "\<exists>out. createFile_output (int (width a)) (int (height a)) (tabG a) (tabV a) = Inr out \<and>
               loadFile out = Inr (a, [])"
proof -
  let ?w = "width a" and ?h = "height a" and ?n = "nChars a"
  let ?sz = "?w * ((?h + 7) div 8)"
  from assms have w: "1 \<le> ?w" "?w \<le> 255" and h: "1 \<le> ?h" "?h \<le> 255"
    and n: "1 \<le> ?n" "?n < 2 ^ 32"
    and lG: "length (tabG a) = ?n" and lV: "length (tabV a) = ?n"
    and G: "list_all isInt32 (tabG a)"
    and V: "list_all (wfEntry ?sz) (tabV a)"
    by (simp_all add: wfArtifact_def)
  let ?wb = "word_of_nat ?w :: byte" and ?hb = "word_of_nat ?h :: byte"
  let ?nb = "be_bytes 4 (int ?n)"
  have tw: "to_bytes (int ?w) 1 = Inr [?wb]"
    using w by (simp add: to_bytes_def)
  have th: "to_bytes (int ?h) 1 = Inr [?hb]"
    using h by (simp add: to_bytes_def)
  have "int ?n < 256 ^ 4"
    using n(2) by simp
  then have tn: "to_bytes (int (length (tabG a))) 4 = Inr ?nb"
    unfolding lG by (intro to_bytes_Inr) simp_all
  let ?out = "[0xfa, 0xff] @ [?wb] @ [?hb] @ ?nb @ encG (tabG a) @ encV (tabV a)"
  have enc: "createFile_output (int ?w) (int ?h) (tabG a) (tabV a) = Inr ?out"
    unfolding createFile_output_def tw th tn
    using extendG_ok [OF G] extendV_ok [OF V] by simp
  have uw: "unat ?wb = ?w"
    using w by (simp add: unat_of_nat)
  have uh: "unat ?hb = ?h"
    using h by (simp add: unat_of_nat)
  have un: "nat (from_bytes ?nb) = ?n"
    using n(2) by (simp add: from_bytes_be_bytes)
  have hdr: "unpack_BBI (?wb # ?hb # ?nb) = Inr (?w, ?h, ?n)"
    by (simp add: unpack_BBI_def length_be_bytes uw uh un)
  have sz: "?w * ((?h - 1) div 8 + 1) + 3 = ?sz + 3"
    using h ceil8 [of ?h] by simp
  have rG: "readG ?n (encG (tabG a) @ encV (tabV a)) = Inr (tabG a, encV (tabV a))"
    using readG_encG [OF G, of "encV (tabV a)"] by (simp add: lG)
  have rV: "readV (?w * ((?h - 1) div 8 + 1) + 3) ?n (encV (tabV a)) = Inr (tabV a, [])"
    unfolding sz using readV_encV [OF V, of "[]"] by (simp add: lV)
  have "loadFile ?out = Inr (a, [])"
    using w h n hdr rG rV
    by (simp add: loadFile_def read_def length_be_bytes)
  with enc show ?thesis by blast
qed


text \<open>
  Claim C3: decoding the bytes that encoding a Font Artifact produces gives back the same
  artifact (width, height, number of entries, G and V), with nothing left unread. A
  negative entry of G is written as its 32-bit two's complement and read back as the same
  negative integer; -1 is written as FF FF FF FF.
\<close>

theorem C3_encode_decode_roundtrip:
  assumes "wfArtifact a"
  shows "(\<exists>out. createFile_output (int (width a)) (int (height a)) (tabG a) (tabV a) = Inr out \<and>
                loadFile out = Inr (a, [])) \<and>
         (\<forall>g. isInt32 g \<longrightarrow> g < 0 \<longrightarrow>
            extendG [g] [] = Inr (be_bytes 4 (2 ^ 32 + g)) \<and>
            unpack_i (be_bytes 4 (2 ^ 32 + g)) = Inr g) \<and>
         extendG [- 1] [] = Inr [0xFF, 0xFF, 0xFF, 0xFF] \<and>
         unpack_i [0xFF, 0xFF, 0xFF, 0xFF] = Inr (- 1)"
proof (intro conjI allI impI)
  show "\<exists>out. createFile_output (int (width a)) (int (height a)) (tabG a) (tabV a) = Inr out \<and>
              loadFile out = Inr (a, [])"
    using assms by (rule encode_decode)
next
  fix g :: int
  assume g: "isInt32 g" "g < 0"
  then have t: "twosComplement32 g = 2 ^ 32 + g"
    by (simp add: twosComplement32_def)
  from g have "list_all isInt32 [g]" by simp
  from extendG_ok [OF this, of "[]"] show "extendG [g] [] = Inr (be_bytes 4 (2 ^ 32 + g))"
    by (simp add: encG_def t)
  from g have "- (2 ^ 31) \<le> g" "g < 2 ^ 31"
    by (simp_all add: isInt32_def)
  from unpack_i_be_bytes [OF this] show "unpack_i (be_bytes 4 (2 ^ 32 + g)) = Inr g"
    by (simp add: t)
next
  show "extendG [- 1] [] = Inr [0xFF, 0xFF, 0xFF, 0xFF]"
    by code_simp
next
  show "unpack_i [0xFF, 0xFF, 0xFF, 0xFF] = Inr (- 1)"
    by code_simp
qed

theorem C3_encode_decode_roundtrip_witness:
  "wfArtifact \<lparr>width = 2, height = 1, nChars = 2, tabG = [- 1, - 2],
      tabV = [Some ([0, 0, 0x41], [1, 2]), Some ([0, 0xFF, 0xFD], [3, 4])]\<rparr> \<and>
   (\<exists>out. createFile_output 2 1 [- 1, - 2]
             [Some ([0, 0, 0x41], [1, 2]), Some ([0, 0xFF, 0xFD], [3, 4])] = Inr out \<and>
      loadFile out =
        Inr (\<lparr>width = 2, height = 1, nChars = 2, tabG = [- 1, - 2],
               tabV = [Some ([0, 0, 0x41], [1, 2]), Some ([0, 0xFF, 0xFD], [3, 4])]\<rparr>, []))"
proof -
  let ?a = "\<lparr>width = 2, height = 1, nChars = 2, tabG = [- 1, - 2],
      tabV = [Some ([0, 0, 0x41], [1, 2]), Some ([0, 0xFF, 0xFD :: byte], [3, 4 :: byte])]\<rparr>"
  have wf: "wfArtifact ?a"
    by (simp add: wfArtifact_def wfEntry_def isInt32_def)
  from C3_encode_decode_roundtrip [OF wf] wf show ?thesis
    by simp
qed

text \<open>
  Claim C6, the part the code keeps: a width, a height or an entry count of zero is
  rejected with an IndexError and no artifact. The part it breaks: a file that declares
  0x110000 entries, one more than the format allows, and is long enough for its tables
  is decoded without any error.
\<close>

theorem C6_decode_accepts_count_above_bound:
  "loadFile (0xfa # 0xff # 0 # hb # n3 # n2 # n1 # n0 # body) =
     Inl (IndexError ''Zero width detected.'') \<and>
   (wb \<noteq> 0 \<longrightarrow> loadFile (0xfa # 0xff # wb # 0 # n3 # n2 # n1 # n0 # body) =
     Inl (IndexError ''Zero height detected.'')) \<and>
   (wb \<noteq> 0 \<longrightarrow> hb \<noteq> 0 \<longrightarrow> loadFile (0xfa # 0xff # wb # hb # 0 # 0 # 0 # 0 # body) =
     Inl (IndexError ''Empty table detected.'')) \<and>
   (\<exists>G V r. loadFile ([0xfa, 0xff, 1, 1, 0x00, 0x11, 0x00, 0x00] @ replicate (8 * 0x110000) 0) =
      Inr (\<lparr>width = 1, height = 1, nChars = 0x110000, tabG = G, tabV = V\<rparr>, r))"
proof (intro conjI impI)
  show "loadFile (0xfa # 0xff # 0 # hb # n3 # n2 # n1 # n0 # body) =
     Inl (IndexError ''Zero width detected.'')"
    by (simp add: loadFile_def read_def unpack_BBI_def)
next
  assume "wb \<noteq> 0"
  then show "loadFile (0xfa # 0xff # wb # 0 # n3 # n2 # n1 # n0 # body) =
     Inl (IndexError ''Zero height detected.'')"
    by (simp add: loadFile_def read_def unpack_BBI_def unat_eq_0)
next
  assume "wb \<noteq> 0" "hb \<noteq> 0"
  then show "loadFile (0xfa # 0xff # wb # hb # 0 # 0 # 0 # 0 # body) =
     Inl (IndexError ''Empty table detected.'')"
    by (simp add: loadFile_def read_def unpack_BBI_def unat_eq_0 from_bytes_def)
next
  define body :: bytes where "body = replicate (8 * 0x110000) 0"
  have lb: "length body = 8 * 0x110000"
    unfolding body_def by (rule length_replicate)
  have fb: "from_bytes [0x00, 0x11, 0x00, 0x00] = 0x110000"
    by (simp add: from_bytes_def)
  have sz: "fileSize (unat (1 :: byte)) (unat (1 :: byte)) (nat (from_bytes [0x00, 0x11, 0x00, 0x00]))
      \<le> 8 + length body"
    unfolding lb fb by (simp add: fileSize_def)
  have "\<exists>G V r. loadFile (0xfa # 0xff # 1 # 1 # 0x00 # 0x11 # 0x00 # 0x00 # body) =
      Inr (\<lparr>width = unat (1 :: byte), height = unat (1 :: byte),
             nChars = nat (from_bytes [0x00, 0x11, 0x00, 0x00]), tabG = G, tabV = V\<rparr>, r)"
    by (rule loadFile_total [OF _ _ _ sz]) (simp_all add: fb)
  then have "\<exists>G V r. loadFile ([0xfa, 0xff, 1, 1, 0x00, 0x11, 0x00, 0x00] @ body) =
      Inr (\<lparr>width = 1, height = 1, nChars = 0x110000, tabG = G, tabV = V\<rparr>, r)"
    by (simp add: fb)
  then show "\<exists>G V r. loadFile ([0xfa, 0xff, 1, 1, 0x00, 0x11, 0x00, 0x00] @
           replicate (8 * 0x110000) 0) =
      Inr (\<lparr>width = 1, height = 1, nChars = 0x110000, tabG = G, tabV = V\<rparr>, r)"
    unfolding body_def .
qed

theorem C6_decode_accepts_count_above_bound_witness:
  "loadFile [0xfa, 0xff, 3, 0, 0, 0, 0, 1] = Inl (IndexError ''Zero height detected.'') \<and>
   loadFile [0xfa, 0xff, 3, 2, 0, 0, 0, 0] = Inl (IndexError ''Empty table detected.'')"
  using C6_decode_accepts_count_above_bound
      [where wb = 3 and hb = 2 and body = "[]" and ?n3.0 = 0 and ?n2.0 = 0 and ?n1.0 = 0
         and ?n0.0 = 1]
  by simp

text \<open>
  Claim C10: a successful decode reads exactly 8 + 4 n + n (3 + width * ceil(height / 8))
  bytes, the rest of the input is left unread, and the same prefix followed by any other
  bytes decodes to the same artifact. An input with the signature, a non-zero width,
  height and count, and at least that many bytes always decodes.
\<close>

theorem C10_decode_consumes_exact_prefix:
  "(loadFile f = Inr (a, r) \<longrightarrow>
      (let N = 8 + 4 * nChars a + nChars a * (3 + width a * ((height a + 7) div 8)) in
       length f = N + length r \<and> r = drop N f \<and>
       (\<forall>extra. loadFile (take N f @ extra) = Inr (a, extra)))) \<and>
   (wb \<noteq> 0 \<longrightarrow> hb \<noteq> 0 \<longrightarrow> from_bytes [n3, n2, n1, n0] \<noteq> 0 \<longrightarrow>
    8 + 4 * nat (from_bytes [n3, n2, n1, n0]) +
      nat (from_bytes [n3, n2, n1, n0]) * (3 + unat wb * ((unat hb + 7) div 8))
      \<le> 8 + length body \<longrightarrow>
    (\<exists>G V r'. loadFile (0xfa # 0xff # wb # hb # n3 # n2 # n1 # n0 # body) =
       Inr (\<lparr>width = unat wb, height = unat hb, nChars = nat (from_bytes [n3, n2, n1, n0]),
              tabG = G, tabV = V\<rparr>, r')))"
proof (intro conjI impI)
  assume ok: "loadFile f = Inr (a, r)"
  from loadFile_prefix [OF ok] obtain p where
    p: "f = p @ r" "length p = fileSize (width a) (height a) (nChars a)"
       "\<forall>x. loadFile (p @ x) = Inr (a, x)" "height a \<noteq> 0"
    by blast
  let ?N = "8 + 4 * nChars a + nChars a * (3 + width a * ((height a + 7) div 8))"
  have "(height a - 1) div 8 + 1 = (height a + 7) div 8"
    using p(4) by (rule ceil8)
  then have N: "length p = ?N"
    using p(2) unfolding fileSize_def by simp
  have "length f = ?N + length r"
    using p(1) N by simp
  moreover have "r = drop ?N f"
    using p(1) N by simp
  moreover have "take ?N f = p"
    using p(1) N by simp
  ultimately show "let N = ?N in length f = N + length r \<and> r = drop N f \<and>
       (\<forall>extra. loadFile (take N f @ extra) = Inr (a, extra))"
    using p(3) by (simp add: Let_def)
next
  let ?n = "nat (from_bytes [n3, n2, n1, n0])"
  assume nz: "wb \<noteq> 0" "hb \<noteq> 0" "from_bytes [n3, n2, n1, n0] \<noteq> 0"
    and len: "8 + 4 * ?n + ?n * (3 + unat wb * ((unat hb + 7) div 8)) \<le> 8 + length body"
  have "unat hb \<noteq> 0"
    using nz(2) by (simp add: unat_eq_0)
  then have "(unat hb - 1) div 8 + 1 = (unat hb + 7) div 8"
    by (rule ceil8)
  then have "fileSize (unat wb) (unat hb) ?n \<le> 8 + length body"
    using len unfolding fileSize_def by simp
  from loadFile_total [OF nz this]
  show "\<exists>G V r'. loadFile (0xfa # 0xff # wb # hb # n3 # n2 # n1 # n0 # body) =
       Inr (\<lparr>width = unat wb, height = unat hb, nChars = ?n, tabG = G, tabV = V\<rparr>, r')" .
qed

theorem C10_decode_consumes_exact_prefix_witness:
  "loadFile [0xfa, 0xff, 2, 1, 0, 0, 0, 1, 0xFF, 0xFF, 0xFF, 0xFF, 0, 0xFF, 0xFD, 5, 6, 7, 8, 9] =
     Inr (\<lparr>width = 2, height = 1, nChars = 1, tabG = [- 1],
            tabV = [Some ([0, 0xFF, 0xFD], [5, 6])]\<rparr>, [7, 8, 9]) \<and>
   length [0xfa, 0xff, 2, 1, 0, 0, 0, 1, 0xFF, 0xFF, 0xFF, 0xFF, 0, 0xFF, 0xFD, 5, 6, 7, 8, 9 :: byte] =
     17 + length [7, 8, 9 :: byte] \<and>
   (\<forall>extra. loadFile ([0xfa, 0xff, 2, 1, 0, 0, 0, 1, 0xFF, 0xFF, 0xFF, 0xFF, 0, 0xFF, 0xFD, 5, 6]
        @ extra) =
     Inr (\<lparr>width = 2, height = 1, nChars = 1, tabG = [- 1],
            tabV = [Some ([0, 0xFF, 0xFD], [5, 6])]\<rparr>, extra)) \<and>
   (\<exists>G V r'. loadFile [0xfa, 0xff, 2, 1, 0, 0, 0, 1, 0xFF, 0xFF, 0xFF, 0xFF, 0, 0xFF, 0xFD, 5, 6] =
       Inr (\<lparr>width = 2, height = 1, nChars = 1, tabG = G, tabV = V\<rparr>, r'))"
proof -
  let ?f = "[0xfa, 0xff, 2, 1, 0, 0, 0, 1, 0xFF, 0xFF, 0xFF, 0xFF, 0, 0xFF, 0xFD, 5, 6, 7, 8, 9 :: byte]"
  let ?a = "\<lparr>width = 2, height = 1, nChars = 1, tabG = [- 1],
            tabV = [Some ([0, 0xFF, 0xFD :: byte], [5, 6 :: byte])]\<rparr>"
  have ok: "loadFile ?f = Inr (?a, [7, 8, 9])"
    by code_simp
  have fb: "from_bytes [0, 0, 0, 1] = 1"
    by (simp add: from_bytes_def)
  from C10_decode_consumes_exact_prefix
    [of ?f ?a "[7, 8, 9]" 2 1 0 0 0 1 "[0xFF, 0xFF, 0xFF, 0xFF, 0, 0xFF, 0xFD, 5, 6]"] ok
  show ?thesis
    by (simp add: fb)
qed

section \<open>Properties of the builder and of the lookup\<close>

subsection \<open>The seed search\<close>

lemma secondary_less: "0 < n \<Longrightarrow> secondary n key seed < n"
  by (simp add: secondary_def nat_less_iff)

lemma primary_less: "0 < n \<Longrightarrow> primary n key < n"
  by (simp add: primary_def nat_less_iff)

lemma findSeed_spec:
  assumes "k \<le> length bucket"
    and "slots = map (\<lambda>key. secondary n key seed) (take k bucket)"
    and "distinct slots"
    and "\<forall>s \<in> set slots. V ! s = None"
    and "\<forall>s'. 1 \<le> s' \<and> s' < seed \<longrightarrow> \<not> seedOK n V bucket s'"
    and "1 \<le> seed" and "seed \<le> FNV1MASK"
  shows "case findSeed n V bucket seed k slots nc of
           Inl e \<Rightarrow> e = ValueError ''Hash seed exceeded 32 bit.'' \<and>
                    (\<forall>s'. 1 \<le> s' \<and> s' \<le> FNV1MASK \<longrightarrow> \<not> seedOK n V bucket s')
         | Inr (s, sl, nc') \<Rightarrow>
             seed \<le> s \<and> s \<le> FNV1MASK \<and> seedOK n V bucket s \<and>
             sl = map (\<lambda>key. secondary n key s) bucket \<and>
             (\<forall>s'. 1 \<le> s' \<and> s' < s \<longrightarrow> \<not> seedOK n V bucket s') \<and>
             nc' = nc + nat (s - seed)"
  using assms
proof (induction n V bucket seed k slots nc rule: findSeed.induct)
  case (1 n V bucket seed k slots nc)
  show ?case
  proof (cases "k < length bucket")
    case False
    with "1.prems" have k: "k = length bucket" by simp
    with "1.prems" have "seedOK n V bucket seed"
      by (simp add: seedOK_def)
    with "1.prems" k False show ?thesis
      by (subst findSeed.simps) simp
  next
    case True
    define slot where "slot = secondary n (bucket ! k) seed"
    show ?thesis
    proof (cases "V ! slot \<noteq> None \<or> slot \<in> set slots")
      case coll: True
      have bad: "\<not> seedOK n V bucket seed"
      proof
        assume ok: "seedOK n V bucket seed"
        from True have mem: "bucket ! k \<in> set bucket" by simp
        from coll show False
        proof
          assume "V ! slot \<noteq> None"
          with ok mem show False
            by (auto simp: seedOK_def slot_def)
        next
          assume "slot \<in> set slots"
          with "1.prems"(2) obtain j where j: "j < k" "secondary n (bucket ! j) seed = slot"
            using True by (auto simp: in_set_conv_nth)
          from ok have d: "distinct (map (\<lambda>key. secondary n key seed) bucket)"
            by (simp add: seedOK_def)
          let ?m = "map (\<lambda>key. secondary n key seed) bucket"
          have lj: "j < length ?m" and lk: "k < length ?m"
            using j True by simp_all
          have "?m ! j = ?m ! k"
            using j True by (simp add: slot_def)
          with nth_eq_iff_index_eq [OF d lj lk] have "j = k" by simp
          with j show False by simp
        qed
      qed
      show ?thesis
      proof (cases "FNV1MASK \<le> seed")
        case True
        with "1.prems" have "seed = FNV1MASK" by simp
        with bad "1.prems"(5) have "\<forall>s'. 1 \<le> s' \<and> s' \<le> FNV1MASK \<longrightarrow> \<not> seedOK n V bucket s'"
          by (metis order_le_less)
        with True coll \<open>k < length bucket\<close> show ?thesis
          by (subst findSeed.simps) (simp add: slot_def)
      next
        case False
        have nb: "\<forall>s'. 1 \<le> s' \<and> s' < seed + 1 \<longrightarrow> \<not> seedOK n V bucket s'"
          using bad "1.prems"(5) by (metis order_le_less zless_add1_eq)
        have IH: "case findSeed n V bucket (seed + 1) 0 [] (nc + 1) of
           Inl e \<Rightarrow> e = ValueError ''Hash seed exceeded 32 bit.'' \<and>
                    (\<forall>s'. 1 \<le> s' \<and> s' \<le> FNV1MASK \<longrightarrow> \<not> seedOK n V bucket s')
         | Inr (s, sl, nc') \<Rightarrow>
             seed + 1 \<le> s \<and> s \<le> FNV1MASK \<and> seedOK n V bucket s \<and>
             sl = map (\<lambda>key. secondary n key s) bucket \<and>
             (\<forall>s'. 1 \<le> s' \<and> s' < s \<longrightarrow> \<not> seedOK n V bucket s') \<and>
             nc' = nc + 1 + nat (s - (seed + 1))"
          using "1.prems"(6) False nb
          by (intro "1.IH"(1) [OF True slot_def coll False]) simp_all
        have unf: "findSeed n V bucket seed k slots nc =
                   findSeed n V bucket (seed + 1) 0 [] (nc + 1)"
          using True coll False by (subst findSeed.simps) (simp add: slot_def)
        show ?thesis
          unfolding unf using IH "1.prems"(6)
          by (auto split: sum.splits)
      qed
    next
      case free: False
      from free have f1: "V ! slot = None" and f2: "slot \<notin> set slots"
        by blast+
      have tk: "take (k + 1) bucket = take k bucket @ [bucket ! k]"
        using True by (simp add: take_Suc_conv_app_nth)
      have p1: "k + 1 \<le> length bucket"
        using True by simp
      have p2: "slots @ [slot] = map (\<lambda>key. secondary n key seed) (take (k + 1) bucket)"
        unfolding tk using "1.prems"(2) by (simp add: slot_def)
      have p3: "distinct (slots @ [slot])"
        using "1.prems"(3) f2 by simp
      have p4: "\<forall>s \<in> set (slots @ [slot]). V ! s = None"
        using "1.prems"(4) f1 by simp
      have IH: "case findSeed n V bucket seed (k + 1) (slots @ [slot]) nc of
           Inl e \<Rightarrow> e = ValueError ''Hash seed exceeded 32 bit.'' \<and>
                    (\<forall>s'. 1 \<le> s' \<and> s' \<le> FNV1MASK \<longrightarrow> \<not> seedOK n V bucket s')
         | Inr (s, sl, nc') \<Rightarrow>
             seed \<le> s \<and> s \<le> FNV1MASK \<and> seedOK n V bucket s \<and>
             sl = map (\<lambda>key. secondary n key s) bucket \<and>
             (\<forall>s'. 1 \<le> s' \<and> s' < s \<longrightarrow> \<not> seedOK n V bucket s') \<and>
             nc' = nc + nat (s - seed)"
        by (rule "1.IH"(2) [OF True slot_def free p1 p2 p3 p4 "1.prems"(5,6,7)])
      have unf: "findSeed n V bucket seed k slots nc =
                 findSeed n V bucket seed (k + 1) (slots @ [slot]) nc"
        using True free by (subst findSeed.simps) (simp add: slot_def)
      show ?thesis
        unfolding unf using IH .
    qed
  qed
qed

subsection \<open>Spreading a bucket and finding a free slot\<close>

lemma dict_get_Some:
  "distinct (map fst src) \<Longrightarrow> (k, bm) \<in> set src \<Longrightarrow> dict_get src k = Inr bm"
  by (simp add: dict_get_def)

lemma spread_spec:
  assumes "k + length slots \<le> length bucket"
    and "set bucket \<subseteq> fst ` set src"
    and "distinct slots"
    and "\<forall>s \<in> set slots. s < length V"
  shows "\<exists>V'. spread src bucket k slots V = Inr V' \<and> length V' = length V \<and>
           (\<forall>j < length slots. \<exists>bm. (bucket ! (k + j), bm) \<in> set src \<and>
               V' ! (slots ! j) = Some (bucket ! (k + j), bm)) \<and>
           (\<forall>i. i \<notin> set slots \<longrightarrow> V' ! i = V ! i)"
  using assms
proof (induction slots arbitrary: k V)
  case Nil
  then show ?case by simp
next
  case (Cons slot slots)
  from Cons.prems(1) have kb: "k < length bucket" by simp
  then have "bucket ! k \<in> set bucket" by simp
  with Cons.prems(2) have "bucket ! k \<in> fst ` set src" by blast
  then obtain bm where bm: "(bucket ! k, bm) \<in> set src" by force
  then have "map_of src (bucket ! k) \<noteq> None"
    by (simp add: map_of_eq_None_iff image_iff) force
  then obtain bm' where m: "map_of src (bucket ! k) = Some bm'" by blast
  then have get: "dict_get src (bucket ! k) = Inr bm'"
    by (simp add: dict_get_def)
  from m have bm': "(bucket ! k, bm') \<in> set src"
    by (rule map_of_SomeD)
  let ?V1 = "V[slot := Some (bucket ! k, bm')]"
  have p1: "(k + 1) + length slots \<le> length bucket"
    using Cons.prems(1) by simp
  have p3: "distinct slots" and ns: "slot \<notin> set slots"
    using Cons.prems(3) by simp_all
  have p4: "\<forall>s \<in> set slots. s < length ?V1"
    using Cons.prems(4) by simp
  from Cons.IH [OF p1 Cons.prems(2) p3 p4] obtain V' where
    V': "spread src bucket (k + 1) slots ?V1 = Inr V'" "length V' = length ?V1"
      "\<forall>j < length slots. \<exists>bm. (bucket ! (k + 1 + j), bm) \<in> set src \<and>
          V' ! (slots ! j) = Some (bucket ! (k + 1 + j), bm)"
      "\<forall>i. i \<notin> set slots \<longrightarrow> V' ! i = ?V1 ! i"
    by blast
  have sl: "slot < length V"
    using Cons.prems(4) by simp
  have r: "spread src bucket k (slot # slots) V = Inr V'"
    using get V'(1) by simp
  have a: "\<exists>bm. (bucket ! (k + j), bm) \<in> set src \<and>
             V' ! ((slot # slots) ! j) = Some (bucket ! (k + j), bm)"
    if "j < length (slot # slots)" for j
  proof (cases j)
    case 0
    have "V' ! slot = ?V1 ! slot"
      using V'(4) ns by simp
    with sl bm' 0 show ?thesis by auto
  next
    case (Suc j')
    with that have "j' < length slots" by simp
    with V'(3) Suc show ?thesis by simp
  qed
  have b: "V' ! i = V ! i" if "i \<notin> set (slot # slots)" for i
    using that V'(4) by simp
  from r V'(2) a b show ?case
    by (intro exI [of _ V']) simp
qed

lemma nextFree_spec:
  "k \<le> nextFree V k \<and>
   (\<forall>j. k \<le> j \<and> j < nextFree V k \<longrightarrow> V ! j \<noteq> None) \<and>
   (nextFree V k < length V \<longrightarrow> V ! nextFree V k = None) \<and>
   (k \<le> length V \<longrightarrow> nextFree V k \<le> length V)"
proof (induction V k rule: nextFree.induct)
  case (1 V k)
  show ?case
  proof (cases "k < length V \<and> V ! k \<noteq> None")
    case True
    then have unf: "nextFree V k = nextFree V (k + 1)"
      by (subst nextFree.simps) auto
    from True "1.IH" have IH: "k + 1 \<le> nextFree V (k + 1)"
      "\<forall>j. k + 1 \<le> j \<and> j < nextFree V (k + 1) \<longrightarrow> V ! j \<noteq> None"
      "nextFree V (k + 1) < length V \<longrightarrow> V ! nextFree V (k + 1) = None"
      "k + 1 \<le> length V \<longrightarrow> nextFree V (k + 1) \<le> length V"
      by simp_all
    have "V ! j \<noteq> None" if "k \<le> j" "j < nextFree V (k + 1)" for j
    proof (cases "j = k")
      case True
      with \<open>k < length V \<and> V ! k \<noteq> None\<close> show ?thesis by simp
    next
      case False
      with that IH(2) show ?thesis by simp
    qed
    with IH True show ?thesis
      unfolding unf by auto
  next
    case False
    then consider "\<not> k < length V" | "k < length V" "V ! k = None"
      by blast
    then show ?thesis
    proof cases
      case 1
      then have unf: "nextFree V k = k"
        by (subst nextFree.simps) simp
      from 1 show ?thesis
        unfolding unf by auto
    next
      case 2
      then have unf: "nextFree V k = k"
        by (subst nextFree.simps) simp
      from 2 show ?thesis
        unfolding unf by auto
    qed
  qed
qed

lemma nextFree_finds:
  assumes "\<forall>j < k. V ! j \<noteq> None" and "j0 < length V" and "V ! j0 = None"
  shows "nextFree V k < length V \<and> V ! nextFree V k = None \<and>
         (\<forall>j < nextFree V k. V ! j \<noteq> None)"
proof -
  from assms have k: "k \<le> j0"
    by (metis not_le_imp_less)
  have "nextFree V k \<le> j0"
  proof (rule ccontr)
    assume "\<not> nextFree V k \<le> j0"
    with k nextFree_spec [of k V] have "V ! j0 \<noteq> None" by simp
    with assms(3) show False by simp
  qed
  with assms(2) have lt: "nextFree V k < length V" by simp
  moreover have "V ! j \<noteq> None" if "j < nextFree V k" for j
    using that assms(1) nextFree_spec [of k V] by (cases "j < k") simp_all
  ultimately show ?thesis
    using nextFree_spec [of k V] by simp
qed

subsection \<open>Buckets, their order and the count of used slots\<close>

lemma fillBuckets_gen:
  assumes "length buckets = n" and "0 < n"
  shows "fillBuckets n keys buckets =
         map (\<lambda>i. buckets ! i @ bucketOf n keys i) [0..<n]"
  using assms(1)
proof (induction keys arbitrary: buckets)
  case Nil
  have "map (\<lambda>i. buckets ! i) [0..<length buckets] = buckets"
    by (rule map_nth)
  with Nil show ?case
    by (simp add: bucketOf_def)
next
  case (Cons key keys)
  let ?p = "primary n key"
  let ?b = "buckets[?p := buckets ! ?p @ [key]]"
  have p: "?p < n"
    using assms(2) by (rule primary_less)
  have len: "length ?b = n"
    using Cons.prems by simp
  have "(?b ! i) @ bucketOf n keys i = buckets ! i @ bucketOf n (key # keys) i"
    if "i < n" for i
    using that Cons.prems p by (cases "i = ?p") (simp_all add: bucketOf_def)
  then have "map (\<lambda>i. ?b ! i @ bucketOf n keys i) [0..<n] =
             map (\<lambda>i. buckets ! i @ bucketOf n (key # keys) i) [0..<n]"
    by simp
  with Cons.IH [OF len] show ?case by simp
qed

lemma fillBuckets_eq:
  "0 < n \<Longrightarrow> fillBuckets n keys (replicate n []) = map (bucketOf n keys) [0..<n]"
  by (simp add: fillBuckets_gen)

lemma insort_key_map:
  "insort_key f (g x) (map g xs) = map g (insort_key (\<lambda>a. f (g a)) x xs)"
  by (induction xs) simp_all

lemma sort_key_map: "sort_key f (map g xs) = map g (sort_key (\<lambda>a. f (g a)) xs)"
  by (induction xs) (simp_all add: insort_key_map)

lemma sortBuckets_eq:
  "\<exists>idx. sortBuckets (map (bucketOf n keys) [0..<n]) = map (bucketOf n keys) idx \<and>
         distinct idx \<and> set idx = {..<n} \<and> sortedIdx n keys idx"
proof -
  let ?f = "\<lambda>i. - int (length (bucketOf n keys i))"
  let ?idx = "sort_key ?f [0..<n]"
  have "sortBuckets (map (bucketOf n keys) [0..<n]) = map (bucketOf n keys) ?idx"
    by (simp add: sortBuckets_def sort_key_map)
  moreover have "distinct ?idx" by simp
  moreover have "set ?idx = {..<n}" by auto
  moreover have "sorted (map ?f ?idx)"
    by (rule sorted_sort_key)
  then have "sortedIdx n keys ?idx"
    by (simp add: sortedIdx_def)
  ultimately show ?thesis by blast
qed

lemma sortedIdx_Cons:
  "sortedIdx n keys (i # idx) \<Longrightarrow>
   sortedIdx n keys idx \<and>
   (\<forall>j \<in> set idx. length (bucketOf n keys j) \<le> length (bucketOf n keys i))"
  by (auto simp: sortedIdx_def)

lemma card_used_update:
  assumes "distinct slots" and "\<forall>s \<in> set slots. s < n \<and> V ! s = None"
    and "\<forall>s \<in> set slots. V' ! s \<noteq> None"
    and "\<forall>i. i \<notin> set slots \<longrightarrow> V' ! i = V ! i"
  shows "card {j. j < n \<and> V' ! j \<noteq> None} = card {j. j < n \<and> V ! j \<noteq> None} + length slots"
proof -
  have eq: "{j. j < n \<and> V' ! j \<noteq> None} = {j. j < n \<and> V ! j \<noteq> None} \<union> set slots"
    using assms(2,3,4) by (intro set_eqI) (metis (mono_tags, lifting) Un_iff mem_Collect_eq)
  have disj: "{j. j < n \<and> V ! j \<noteq> None} \<inter> set slots = {}"
    using assms(2) by auto
  have "card ({j. j < n \<and> V ! j \<noteq> None} \<union> set slots) =
        card {j. j < n \<and> V ! j \<noteq> None} + card (set slots)"
    using disj by (intro card_Un_disjoint) simp_all
  with eq assms(1) show ?thesis
    by (simp add: distinct_card)
qed

lemma exists_free:
  assumes "card {j. j < n \<and> V ! j \<noteq> None} < n"
  shows "\<exists>j < n. V ! j = None"
proof (rule ccontr)
  assume "\<not> (\<exists>j < n. V ! j = None)"
  then have "{j. j < n \<and> V ! j \<noteq> None} = {..<n}" by auto
  with assms show False by simp
qed

lemma all_used:
  assumes "card {j. j < n \<and> V ! j \<noteq> None} = n" and "j < n"
  shows "V ! j \<noteq> None"
proof -
  have "{j. j < n \<and> V ! j \<noteq> None} \<subseteq> {..<n}" by auto
  moreover have "card {..<n} = n" by simp
  ultimately have "{j. j < n \<and> V ! j \<noteq> None} = {..<n}"
    using assms(1) by (metis card_subset_eq finite_lessThan)
  with assms(2) show ?thesis by blast
qed

lemma card_done_step:
  assumes "distinct keys" and "i \<notin> set idx"
  shows "card {k \<in> set keys. primary n k \<notin> set idx} =
         card {k \<in> set keys. primary n k \<notin> set (i # idx)} + length (bucketOf n keys i)"
proof -
  let ?A = "{k \<in> set keys. primary n k \<notin> set (i # idx)}"
  let ?B = "set (bucketOf n keys i)"
  have eq: "{k \<in> set keys. primary n k \<notin> set idx} = ?A \<union> ?B"
    using assms(2) by (auto simp: bucketOf_def)
  have disj: "?A \<inter> ?B = {}"
    by (auto simp: bucketOf_def)
  have "card (?A \<union> ?B) = card ?A + card ?B"
    using disj by (intro card_Un_disjoint) simp_all
  moreover have "distinct (bucketOf n keys i)"
    using assms(1) by (simp add: bucketOf_def)
  then have "card ?B = length (bucketOf n keys i)"
    by (rule distinct_card)
  ultimately show ?thesis
    using eq by simp
qed

subsection \<open>The invariant of the two loops\<close>

lemma buildInvI:
  assumes "length G = n" and "length V = n"
    and "\<And>k bm. (k, bm) \<in> set src \<Longrightarrow> primary n k \<notin> set idx \<Longrightarrow>
           resolve n G k < n \<and> V ! resolve n G k = Some (k, bm)"
    and "\<And>j e. j < n \<Longrightarrow> V ! j = Some e \<Longrightarrow> e \<in> set src \<and> primary n (fst e) \<notin> set idx"
    and "nCheck = card {j. j < n \<and> V ! j \<noteq> None}"
    and "nCheck = card {k \<in> set (map fst src). primary n k \<notin> set idx}"
    and "\<And>i. i \<in> set idx \<Longrightarrow> G ! i = 0"
    and "\<And>i. i < n \<Longrightarrow> i \<notin> set idx \<Longrightarrow> bucketClass n (map fst src) G i"
  shows "buildInv n src idx G V nCheck"
  unfolding buildInv_def using assms by blast

lemma buildInvD:
  assumes "buildInv n src idx G V nCheck"
  shows "length G = n" and "length V = n"
    and "\<And>k bm. (k, bm) \<in> set src \<Longrightarrow> primary n k \<notin> set idx \<Longrightarrow>
           resolve n G k < n \<and> V ! resolve n G k = Some (k, bm)"
    and "\<And>j e. j < n \<Longrightarrow> V ! j = Some e \<Longrightarrow> e \<in> set src \<and> primary n (fst e) \<notin> set idx"
    and "nCheck = card {j. j < n \<and> V ! j \<noteq> None}"
    and "nCheck = card {k \<in> set (map fst src). primary n k \<notin> set idx}"
    and "\<And>i. i \<in> set idx \<Longrightarrow> G ! i = 0"
    and "\<And>i. i < n \<Longrightarrow> i \<notin> set idx \<Longrightarrow> bucketClass n (map fst src) G i"
  using assms unfolding buildInv_def by blast+

lemma same_key_same_value:
  "distinct (map fst src) \<Longrightarrow> (k, a) \<in> set src \<Longrightarrow> (k, b) \<in> set src \<Longrightarrow> a = b"
  by (rule eq_key_imp_eq_value)

lemma bucketClass_update:
  "i \<noteq> j \<Longrightarrow> bucketClass n keys (G[j := x]) i = bucketClass n keys G i"
  by (simp add: bucketClass_def)

lemma resolve_update:
  "primary n k \<noteq> j \<Longrightarrow> resolve n (G[j := x]) k = resolve n G k"
  by (simp add: resolve_def)


lemma placeBucket_inv:
  assumes inv: "buildInv n src (i # idx) G V nCheck"
    and d: "distinct (i # idx)" and i: "i < n"
    and dk: "distinct (map fst src)"
    and b: "bucket = bucketOf n (map fst src) i" and len: "2 \<le> length bucket"
  shows "case placeBucket n src bucket (G, V, nCheck, nColl) of
           Inl e \<Rightarrow> e = ValueError ''Hash seed exceeded 32 bit.''
         | Inr (G', V', nCheck', nColl') \<Rightarrow> buildInv n src idx G' V' nCheck'"
proof -
  note I = buildInvD [OF inv]
  from i have n: "0 < n" by simp
  have fs: "case findSeed n V bucket 1 0 [] nColl of
           Inl e \<Rightarrow> e = ValueError ''Hash seed exceeded 32 bit.'' \<and>
                    (\<forall>s'. 1 \<le> s' \<and> s' \<le> FNV1MASK \<longrightarrow> \<not> seedOK n V bucket s')
         | Inr (s, sl, nc') \<Rightarrow>
             1 \<le> s \<and> s \<le> FNV1MASK \<and> seedOK n V bucket s \<and>
             sl = map (\<lambda>key. secondary n key s) bucket \<and>
             (\<forall>s'. 1 \<le> s' \<and> s' < s \<longrightarrow> \<not> seedOK n V bucket s') \<and>
             nc' = nColl + nat (s - 1)"
    by (rule findSeed_spec) (auto simp: FNV1MASK_def)
  show ?thesis
  proof (cases "findSeed n V bucket 1 0 [] nColl")
    case (Inl e)
    with fs show ?thesis
      by (simp add: placeBucket_def)
  next
    case (Inr r)
    obtain s sl nc' where r: "r = (s, sl, nc')"
      by (cases r)
    from fs Inr r have s1: "1 \<le> s" and s2: "s \<le> FNV1MASK" and ok: "seedOK n V bucket s"
      and sl: "sl = map (\<lambda>key. secondary n key s) bucket"
      by simp_all
    have mem: "k \<in> set bucket \<longleftrightarrow> k \<in> set (map fst src) \<and> primary n k = i" for k
      by (auto simp: b bucketOf_def)
    have sub: "set bucket \<subseteq> fst ` set src"
      using mem by auto
    have dsl: "distinct sl"
      using ok sl by (simp add: seedOK_def)
    have lsl: "length sl = length bucket"
      by (simp add: sl)
    have slt: "\<forall>x \<in> set sl. x < length V"
      using n I(2) by (auto simp: sl secondary_less)
    have free: "\<forall>x \<in> set sl. V ! x = None"
      using ok by (auto simp: sl seedOK_def)
    have "0 + length sl \<le> length bucket"
      by (simp add: lsl)
    from spread_spec [OF this sub dsl slt] obtain V' where
      sp: "spread src bucket 0 sl V = Inr V'" and lV': "length V' = length V"
      and new: "\<forall>j < length sl. \<exists>bm. (bucket ! (0 + j), bm) \<in> set src \<and>
                  V' ! (sl ! j) = Some (bucket ! (0 + j), bm)"
      and old: "\<forall>x. x \<notin> set sl \<longrightarrow> V' ! x = V ! x"
      by blast
    have new': "\<exists>bm. (bucket ! j, bm) \<in> set src \<and> V' ! (sl ! j) = Some (bucket ! j, bm)"
      if "j < length sl" for j
      using new that by simp
    have "0 < length bucket"
      using len by linarith
    then have "bucket ! 0 \<in> set bucket"
      by (rule nth_mem)
    then have p0: "primary n (bucket ! 0) = i"
      by (simp add: mem)
    let ?G = "G[i := s]"
    have pb: "placeBucket n src bucket (G, V, nCheck, nColl) =
              Inr (?G, V', nCheck + length sl, nc')"
      by (simp add: placeBucket_def Inr r sp p0)
    have Gi: "?G ! i = s"
      using i I(1) by simp
    have c3: "resolve n ?G k < n \<and> V' ! resolve n ?G k = Some (k, bm)"
      if kb: "(k, bm) \<in> set src" and pk: "primary n k \<notin> set idx" for k bm
    proof (cases "primary n k = i")
      case True
      from kb have "k \<in> set (map fst src)" by force
      with True have "k \<in> set bucket" by (simp add: mem)
      then obtain j where j: "j < length bucket" "bucket ! j = k"
        by (auto simp: in_set_conv_nth)
      have res: "resolve n ?G k = sl ! j"
        using True Gi s1 j by (simp add: resolve_def sl)
      from j lsl have "j < length sl" by simp
      from new' [OF this] j(2) obtain bm' where
        bm': "(k, bm') \<in> set src" "V' ! (sl ! j) = Some (k, bm')"
        by auto
      from same_key_same_value [OF dk kb bm'(1)] have "bm = bm'" .
      moreover have "sl ! j < n"
        using slt j lsl I(2) by simp
      ultimately show ?thesis
        using res bm'(2) by simp
    next
      case False
      with pk have "primary n k \<notin> set (i # idx)" by simp
      from I(3) [OF kb this] have r: "resolve n G k < n" "V ! resolve n G k = Some (k, bm)"
        by simp_all
      have "resolve n ?G k = resolve n G k"
        using False by (rule resolve_update)
      moreover have "resolve n G k \<notin> set sl"
        using free r(2) by auto
      ultimately show ?thesis
        using r old by simp
    qed
    have c4: "e \<in> set src \<and> primary n (fst e) \<notin> set idx"
      if j: "j < n" and e: "V' ! j = Some e" for j e
    proof (cases "j \<in> set sl")
      case True
      then obtain j' where j': "j' < length sl" "sl ! j' = j"
        by (auto simp: in_set_conv_nth)
      from new' [OF j'(1)] obtain bm where
        bm0: "(bucket ! j', bm) \<in> set src" "V' ! (sl ! j') = Some (bucket ! j', bm)"
        by blast
      with e j'(2) have bm: "(bucket ! j', bm) \<in> set src" "e = (bucket ! j', bm)"
        by simp_all
      have "bucket ! j' \<in> set bucket"
        using j'(1) lsl by simp
      then have "primary n (bucket ! j') = i"
        by (simp add: mem)
      with bm d show ?thesis by simp
    next
      case False
      with old e have "V ! j = Some e" by simp
      from I(4) [OF j this] show ?thesis by simp
    qed
    have c5: "nCheck + length sl = card {j. j < n \<and> V' ! j \<noteq> None}"
    proof -
      have a: "\<forall>x \<in> set sl. x < n \<and> V ! x = None"
        using slt free I(2) by simp
      have b: "\<forall>x \<in> set sl. V' ! x \<noteq> None"
      proof
        fix x assume "x \<in> set sl"
        then obtain j' where j': "j' < length sl" "sl ! j' = x"
          by (auto simp: in_set_conv_nth)
        from new' [OF j'(1)] j'(2) show "V' ! x \<noteq> None" by auto
      qed
      from card_used_update [OF dsl a b old] I(5) show ?thesis by simp
    qed
    have c6: "nCheck + length sl = card {k \<in> set (map fst src). primary n k \<notin> set idx}"
    proof -
      from d have "i \<notin> set idx" by simp
      from card_done_step [OF dk this, of n] I(6) show ?thesis
        by (simp add: lsl b)
    qed
    have c7: "?G ! i' = 0" if "i' \<in> set idx" for i'
    proof -
      from that d have "i' \<noteq> i" by auto
      with I(7) [of i'] that show ?thesis by simp
    qed
    have c8: "bucketClass n (map fst src) ?G i'" if "i' < n" "i' \<notin> set idx" for i'
    proof (cases "i' = i")
      case True
      with Gi s1 s2 len show ?thesis
        by (simp add: bucketClass_def b)
    next
      case False
      with that have "bucketClass n (map fst src) G i'"
        by (intro I(8)) simp_all
      with False show ?thesis
        by (simp add: bucketClass_update)
    qed
    have "buildInv n src idx ?G V' (nCheck + length sl)"
      using I(1,2) lV' c3 c4 c5 c6 c7 c8 by (intro buildInvI) simp_all
    then show ?thesis
      by (simp add: pb)
  qed
qed

lemma placeSingle_inv:
  assumes inv: "buildInv n src (i # idx) G V nCheck"
    and d: "distinct (i # idx)" and i: "i < n"
    and dk: "distinct (map fst src)" and n: "n = length src"
    and b: "bucket = bucketOf n (map fst src) i" and len: "length bucket = 1"
    and below: "\<forall>j < k. V ! j \<noteq> None"
  shows "\<exists>bm. nextFree V k < length V \<and> dict_get src (bucket ! 0) = Inr bm \<and>
           buildInv n src idx (G[primary n (bucket ! 0) := - int (nextFree V k) - 1])
             (V[nextFree V k := Some (bucket ! 0, bm)]) (nCheck + 1) \<and>
           (\<forall>j < nextFree V k. (V[nextFree V k := Some (bucket ! 0, bm)]) ! j \<noteq> None)"
proof -
  note I = buildInvD [OF inv]
  let ?keys = "map fst src"
  obtain key where bk: "bucket = [key]"
    using len by (cases bucket) simp_all
  have mem: "k' \<in> set bucket \<longleftrightarrow> k' \<in> set ?keys \<and> primary n k' = i" for k'
    by (auto simp: b bucketOf_def)
  from mem [of key] bk have key: "key \<in> set ?keys" "primary n key = i"
    by simp_all
  then obtain bm where bm: "(key, bm) \<in> set src"
    by force
  with dk have get: "dict_get src key = Inr bm"
    by (simp add: dict_get_def)
  have "{k' \<in> set ?keys. primary n k' \<notin> set (i # idx)} \<subset> set ?keys"
    using key by auto
  then have "card {k' \<in> set ?keys. primary n k' \<notin> set (i # idx)} < card (set ?keys)"
    by (intro psubset_card_mono) simp_all
  also have "card (set ?keys) = n"
    using distinct_card [OF dk] n by simp
  finally have "card {j. j < n \<and> V ! j \<noteq> None} < n"
    using I(5,6) by simp
  from exists_free [OF this] obtain j0 where j0: "j0 < n" "V ! j0 = None"
    by blast
  define slot where "slot = nextFree V k"
  from nextFree_finds [OF below, of j0] j0 I(2) have
    sl: "slot < length V" and fr: "V ! slot = None" and bel: "\<forall>j < slot. V ! j \<noteq> None"
    by (simp_all add: slot_def)
  let ?G = "G[i := - int slot - 1]" and ?V = "V[slot := Some (key, bm)]"
  have Gi: "?G ! i = - int slot - 1"
    using i I(1) by simp
  have c3: "resolve n ?G k' < n \<and> ?V ! resolve n ?G k' = Some (k', bm')"
    if kb: "(k', bm') \<in> set src" and pk: "primary n k' \<notin> set idx" for k' bm'
  proof (cases "primary n k' = i")
    case True
    from kb have "k' \<in> set ?keys" by force
    with True have "k' \<in> set bucket" by (simp add: mem)
    with bk have k': "k' = key" by simp
    with same_key_same_value [OF dk kb] bm have "bm' = bm" by simp
    moreover have "resolve n ?G k' = slot"
      using True Gi by (simp add: resolve_def)
    ultimately show ?thesis
      using sl I(2) k' by simp
  next
    case False
    with pk have "primary n k' \<notin> set (i # idx)" by simp
    from I(3) [OF kb this] have r: "resolve n G k' < n" "V ! resolve n G k' = Some (k', bm')"
      by simp_all
    have "resolve n ?G k' = resolve n G k'"
      using False by (rule resolve_update)
    moreover have "resolve n G k' \<noteq> slot"
      using fr r(2) by auto
    ultimately show ?thesis
      using r by simp
  qed
  have c4: "e \<in> set src \<and> primary n (fst e) \<notin> set idx"
    if j: "j < n" and e: "?V ! j = Some e" for j e
  proof (cases "j = slot")
    case True
    with e sl have "e = (key, bm)" by simp
    with bm key d show ?thesis by simp
  next
    case False
    with e have "V ! j = Some e" by simp
    from I(4) [OF j this] show ?thesis by simp
  qed
  have c5: "nCheck + 1 = card {j. j < n \<and> ?V ! j \<noteq> None}"
  proof -
    have a: "distinct [slot]" by simp
    have b': "\<forall>x \<in> set [slot]. x < n \<and> V ! x = None"
      using sl fr I(2) by simp
    have c: "\<forall>x \<in> set [slot]. ?V ! x \<noteq> None"
      using sl by simp
    have e: "\<forall>x. x \<notin> set [slot] \<longrightarrow> ?V ! x = V ! x"
      by simp
    from card_used_update [OF a b' c e] I(5) show ?thesis by simp
  qed
  have c6: "nCheck + 1 = card {k' \<in> set ?keys. primary n k' \<notin> set idx}"
  proof -
    from d have "i \<notin> set idx" by simp
    from card_done_step [OF dk this, of n] I(6) len show ?thesis
      by (simp add: b)
  qed
  have c7: "?G ! i' = 0" if "i' \<in> set idx" for i'
  proof -
    from that d have "i' \<noteq> i" by auto
    with I(7) [of i'] that show ?thesis by simp
  qed
  have c8: "bucketClass n ?keys ?G i'" if "i' < n" "i' \<notin> set idx" for i'
  proof (cases "i' = i")
    case True
    have "- int n \<le> - int slot - 1"
      using sl I(2) by simp
    with True Gi len show ?thesis
      by (simp add: bucketClass_def b)
  next
    case False
    with that have "bucketClass n ?keys G i'"
      by (intro I(8)) simp_all
    with False show ?thesis
      by (simp add: bucketClass_update)
  qed
  have inv': "buildInv n src idx ?G ?V (nCheck + 1)"
    using I(1,2) c3 c4 c5 c6 c7 c8 by (intro buildInvI) simp_all
  have "\<forall>j < slot. ?V ! j \<noteq> None"
    using bel by simp
  with inv' sl get show ?thesis
    unfolding slot_def [symmetric] by (simp add: bk key(2))
qed

lemma step3_inv:
  assumes dk: "distinct (map fst src)" and n: "n = length src"
  shows "buildInv n src idx G V nCheck \<Longrightarrow> distinct idx \<Longrightarrow> set idx \<subseteq> {..<n} \<Longrightarrow>
     sortedIdx n (map fst src) idx \<Longrightarrow>
     (case step3 n src (map (bucketOf n (map fst src)) idx) (G, V, nCheck, nColl) of
        Inl e \<Rightarrow> e = ValueError ''Hash seed exceeded 32 bit.''
      | Inr (bs, G', V', nCheck', nColl') \<Rightarrow>
          \<exists>idx'. bs = map (bucketOf n (map fst src)) idx' \<and> distinct idx' \<and>
            set idx' \<subseteq> {..<n} \<and> sortedIdx n (map fst src) idx' \<and>
            buildInv n src idx' G' V' nCheck' \<and>
            (\<forall>i \<in> set idx'. length (bucketOf n (map fst src) i) \<le> 1))"
proof (induction idx arbitrary: G V nCheck nColl)
  case Nil
  then show ?case
    by (simp add: sortedIdx_def)
next
  case (Cons i idx)
  let ?keys = "map fst src"
  let ?b = "bucketOf n ?keys i"
  from Cons.prems have i: "i < n" and d: "distinct idx" and sub: "set idx \<subseteq> {..<n}"
    by simp_all
  from sortedIdx_Cons [OF Cons.prems(4)] have
    so: "sortedIdx n ?keys idx" and le: "\<forall>j \<in> set idx. length (bucketOf n ?keys j) \<le> length ?b"
    by simp_all
  show ?case
  proof (cases "1 < length ?b")
    case True
    then have len: "2 \<le> length ?b" by simp
    from placeBucket_inv [OF Cons.prems(1,2) i dk refl len, of nColl]
    have pb: "case placeBucket n src ?b (G, V, nCheck, nColl) of
           Inl e \<Rightarrow> e = ValueError ''Hash seed exceeded 32 bit.''
         | Inr (G', V', nCheck', nColl') \<Rightarrow> buildInv n src idx G' V' nCheck'" .
    show ?thesis
    proof (cases "placeBucket n src ?b (G, V, nCheck, nColl)")
      case (Inl e)
      with pb True show ?thesis by simp
    next
      case (Inr st)
      obtain G' V' nCheck' nColl' where st: "st = (G', V', nCheck', nColl')"
        by (cases st)
      with pb Inr have "buildInv n src idx G' V' nCheck'" by simp
      from Cons.IH [OF this d sub so, of nColl'] True Inr st show ?thesis
        by simp
    qed
  next
    case False
    then have all1: "\<forall>j \<in> set (i # idx). length (bucketOf n ?keys j) \<le> 1"
      using le by auto
    have r: "step3 n src (map (bucketOf n ?keys) (i # idx)) (G, V, nCheck, nColl) =
             Inr (map (bucketOf n ?keys) (i # idx), G, V, nCheck, nColl)"
      using False by simp
    have ex: "\<exists>idx'. map (bucketOf n ?keys) (i # idx) = map (bucketOf n ?keys) idx' \<and>
            distinct idx' \<and> set idx' \<subseteq> {..<n} \<and> sortedIdx n ?keys idx' \<and>
            buildInv n src idx' G V nCheck \<and>
            (\<forall>i \<in> set idx'. length (bucketOf n ?keys i) \<le> 1)"
      by (intro exI [of _ "i # idx"] conjI refl Cons.prems all1)
    show ?thesis
      by (simp only: r sum.case prod.case ex)
  qed
qed

lemma step4_inv:
  assumes dk: "distinct (map fst src)" and n: "n = length src"
  shows "buildInv n src idx G V nCheck \<Longrightarrow> distinct idx \<Longrightarrow> set idx \<subseteq> {..<n} \<Longrightarrow>
     sortedIdx n (map fst src) idx \<Longrightarrow>
     \<forall>i \<in> set idx. length (bucketOf n (map fst src) i) \<le> 1 \<Longrightarrow>
     \<forall>j < k. V ! j \<noteq> None \<Longrightarrow>
     \<exists>G' V' nCheck' idx'.
        step4 n src (map (bucketOf n (map fst src)) idx) k G V nCheck = Inr (G', V', nCheck') \<and>
        buildInv n src idx' G' V' nCheck' \<and>
        (\<forall>i \<in> set idx'. bucketOf n (map fst src) i = [])"
proof (induction idx arbitrary: G V nCheck k)
  case Nil
  then show ?case
    by (intro exI [of _ G] exI [of _ V] exI [of _ nCheck] exI [of _ "[]"]) simp
next
  case (Cons i idx)
  let ?keys = "map fst src"
  let ?b = "bucketOf n ?keys i"
  from Cons.prems have i: "i < n" and d: "distinct idx" and sub: "set idx \<subseteq> {..<n}"
    and le1: "\<forall>j \<in> set idx. length (bucketOf n ?keys j) \<le> 1" and bi: "length ?b \<le> 1"
    by simp_all
  from sortedIdx_Cons [OF Cons.prems(4)] have
    so: "sortedIdx n ?keys idx" and le: "\<forall>j \<in> set idx. length (bucketOf n ?keys j) \<le> length ?b"
    by simp_all
  show ?case
  proof (cases "0 < length ?b")
    case False
    then have "\<forall>j \<in> set (i # idx). bucketOf n ?keys j = []"
      using le by auto
    with False Cons.prems(1) show ?thesis
      by (intro exI [of _ G] exI [of _ V] exI [of _ nCheck] exI [of _ "i # idx"])
        (simp del: set_simps)
  next
    case True
    with bi have len: "length ?b = 1" by linarith
    from placeSingle_inv [OF Cons.prems(1,2) i dk n refl len Cons.prems(6)]
    obtain bm where sl: "nextFree V k < length V"
      and get: "dict_get src (?b ! 0) = Inr bm"
      and inv': "buildInv n src idx (G[primary n (?b ! 0) := - int (nextFree V k) - 1])
             (V[nextFree V k := Some (?b ! 0, bm)]) (nCheck + 1)"
      and bel: "\<forall>j < nextFree V k. (V[nextFree V k := Some (?b ! 0, bm)]) ! j \<noteq> None"
      by blast
    from Cons.IH [OF inv' d sub so le1 bel] obtain G' V' nCheck' idx' where
      r: "step4 n src (map (bucketOf n ?keys) idx) (nextFree V k)
            (G[primary n (?b ! 0) := - int (nextFree V k) - 1])
            (V[nextFree V k := Some (?b ! 0, bm)]) (nCheck + 1) = Inr (G', V', nCheck')"
        "buildInv n src idx' G' V' nCheck'"
        "\<forall>i \<in> set idx'. bucketOf n ?keys i = []"
      by blast
    have "step4 n src (map (bucketOf n ?keys) (i # idx)) k G V nCheck = Inr (G', V', nCheck')"
      using True sl get r(1) by (simp add: Let_def)
    with r(2,3) show ?thesis by blast
  qed
qed

subsection \<open>Correctness of the build\<close>

lemma buildInv_initial:
  assumes "0 < n" and "set idx = {..<n}"
  shows "buildInv n src idx (replicate n 0) (replicate n None) 0"
proof (rule buildInvI)
  show "length (replicate n (0::int)) = n" by simp
  show "length (replicate n (None :: entry option)) = n" by simp
next
  fix k bm
  assume "primary n k \<notin> set idx"
  with assms primary_less [of n k] have False by simp
  then show "resolve n (replicate n 0) k < n \<and>
             replicate n None ! resolve n (replicate n 0) k = Some (k, bm)" ..
next
  fix j and e :: entry
  assume "j < n" "replicate n None ! j = Some e"
  then have False by simp
  then show "e \<in> set src \<and> primary n (fst e) \<notin> set idx" ..
next
  have "{j. j < n \<and> replicate n (None :: entry option) ! j \<noteq> None} = {}"
    by auto
  then show "0 = card {j. j < n \<and> replicate n (None :: entry option) ! j \<noteq> None}"
    by simp
next
  have "{k \<in> set (map fst src). primary n k \<notin> set idx} = {}"
    using assms primary_less [of n] by auto
  then show "0 = card {k \<in> set (map fst src). primary n k \<notin> set idx}"
    by simp
next
  fix i assume "i \<in> set idx"
  with assms show "replicate n (0::int) ! i = 0" by simp
next
  fix i assume "i < n" "i \<notin> set idx"
  with assms have False by simp
  then show "bucketClass n (map fst src) (replicate n 0) i" ..
qed

lemma build_correct:
  assumes dk: "distinct (map fst src)" and ne: "src \<noteq> []"
  shows "case createMinimalPerfectHash src of
           Inl e \<Rightarrow> e = ValueError ''Hash seed exceeded 32 bit.''
         | Inr (G, V, nc) \<Rightarrow> tablesOK src G V"
proof -
  define n where "n = length src"
  let ?keys = "map fst src"
  from ne have n0: "0 < n" by (simp add: n_def)
  from sortBuckets_eq [of n ?keys] obtain idx0 where
    sb: "sortBuckets (map (bucketOf n ?keys) [0..<n]) = map (bucketOf n ?keys) idx0"
    and d0: "distinct idx0" and s0: "set idx0 = {..<n}" and so0: "sortedIdx n ?keys idx0"
    by blast
  have buckets: "sortBuckets (fillBuckets n ?keys (replicate n [])) = map (bucketOf n ?keys) idx0"
    using n0 by (simp add: fillBuckets_eq sb)
  have inv0: "buildInv n src idx0 (replicate n 0) (replicate n None) 0"
    using n0 s0 by (rule buildInv_initial)
  have sub0: "set idx0 \<subseteq> {..<n}"
    using s0 by simp
  have unf: "createMinimalPerfectHash src =
     (case step3 n src (map (bucketOf n ?keys) idx0) (replicate n 0, replicate n None, 0, 0) of
        Inl e \<Rightarrow> Inl e
      | Inr (buckets', G, V, nCheck, nCollisions) \<Rightarrow>
          (case step4 n src buckets' 0 G V nCheck of
             Inl e \<Rightarrow> Inl e
           | Inr (G', V', nCheck') \<Rightarrow>
               if n = nCheck' then Inr (G', V', nCollisions)
               else Inl (ValueError
                 ''Mismatch between number of keys and number of processed keys.'')))"
    unfolding createMinimalPerfectHash_def Let_def n_def [symmetric] buckets ..
  note s3 = step3_inv [OF dk n_def inv0 d0 sub0 so0, of 0]
  show ?thesis
  proof (cases "step3 n src (map (bucketOf n ?keys) idx0) (replicate n 0, replicate n None, 0, 0)")
    case (Inl e)
    with s3 show ?thesis
      by (simp add: unf)
  next
    case (Inr r)
    obtain bs G1 V1 nCheck1 nColl1 where r: "r = (bs, G1, V1, nCheck1, nColl1)"
      by (cases r)
    from s3 Inr r obtain idx1 where bs: "bs = map (bucketOf n ?keys) idx1"
      and d1: "distinct idx1" and sub1: "set idx1 \<subseteq> {..<n}" and so1: "sortedIdx n ?keys idx1"
      and inv1: "buildInv n src idx1 G1 V1 nCheck1"
      and le1: "\<forall>i \<in> set idx1. length (bucketOf n ?keys i) \<le> 1"
      by auto
    have "\<forall>j < (0::nat). V1 ! j \<noteq> None" by simp
    from step4_inv [OF dk n_def inv1 d1 sub1 so1 le1 this] obtain G2 V2 nCheck2 idx2 where
      s4: "step4 n src (map (bucketOf n ?keys) idx1) 0 G1 V1 nCheck1 = Inr (G2, V2, nCheck2)"
      and inv2: "buildInv n src idx2 G2 V2 nCheck2"
      and empty: "\<forall>i \<in> set idx2. bucketOf n ?keys i = []"
      by blast
    note I = buildInvD [OF inv2]
    have placed: "primary n k \<notin> set idx2" if "k \<in> set ?keys" for k
    proof
      assume "primary n k \<in> set idx2"
      with empty have "bucketOf n ?keys (primary n k) = []" by simp
      moreover have "k \<in> set (bucketOf n ?keys (primary n k))"
        using that by (simp add: bucketOf_def)
      ultimately show False by simp
    qed
    then have "{k \<in> set ?keys. primary n k \<notin> set idx2} = set ?keys"
      by blast
    with I(6) distinct_card [OF dk] have nc: "nCheck2 = n"
      by (simp add: n_def)
    have res: "createMinimalPerfectHash src = Inr (G2, V2, nColl1)"
      by (simp add: unf Inr r bs s4 nc)
    have t3: "resolve n G2 k < n \<and> V2 ! resolve n G2 k = Some (k, bm)"
      if "(k, bm) \<in> set src" for k bm
    proof -
      from that have "k \<in> set ?keys" by force
      from I(3) [OF that placed [OF this]] show ?thesis .
    qed
    have t4: "\<exists>e \<in> set src. V2 ! j = Some e" if "j < n" for j
    proof -
      from I(5) nc have "card {j. j < n \<and> V2 ! j \<noteq> None} = n" by simp
      from all_used [OF this that] obtain e where e: "V2 ! j = Some e" by blast
      from I(4) [OF that e] e show ?thesis by blast
    qed
    have t5: "(bucketOf n ?keys i = [] \<and> G2 ! i = 0) \<or> bucketClass n ?keys G2 i"
      if "i < n" for i
    proof (cases "i \<in> set idx2")
      case True
      with empty I(7) show ?thesis by simp
    next
      case False
      from I(8) [OF that False] show ?thesis by simp
    qed
    have "tablesOK src G2 V2"
      unfolding tablesOK_def n_def [symmetric]
      using I(1,2) t3 t4 t5 by blast
    with res show ?thesis by simp
  qed
qed

subsection \<open>The lookup on the tables of a build\<close>

lemma resolve_in_range:
  assumes ok: "tablesOK src G V" and ne: "src \<noteq> []"
  shows "resolve (length src) G key < length src"
proof -
  let ?n = "length src"
  from ne have n0: "0 < ?n" by simp
  then have p: "primary ?n key < ?n"
    by (rule primary_less)
  from ok p have cls: "(bucketOf ?n (map fst src) (primary ?n key) = [] \<and> G ! primary ?n key = 0) \<or>
      bucketClass ?n (map fst src) G (primary ?n key)"
    unfolding tablesOK_def by blast
  show ?thesis
  proof (cases "G ! primary ?n key < 0")
    case True
    with cls have "- int ?n \<le> G ! primary ?n key"
      by (auto simp: bucketClass_def)
    with True show ?thesis
      by (simp add: resolve_def)
  next
    case False
    with n0 show ?thesis
      by (simp add: resolve_def secondary_less)
  qed
qed

lemma lookUp_tablesOK:
  assumes ok: "tablesOK src G V" and ne: "src \<noteq> []"
  shows "lookUp (length src) G V key =
         (case V ! resolve (length src) G key of
            None \<Rightarrow> Inl TypeError
          | Some (storedKey, bm) \<Rightarrow> if storedKey = key then Inr bm else Inl KeyError)"
proof -
  let ?n = "length src"
  from ne have n0: "0 < ?n" by simp
  from ok have lG: "length G = ?n" and lV: "length V = ?n"
    by (simp_all add: tablesOK_def)
  have p: "primary ?n key < length G"
    using n0 lG by (simp add: primary_less)
  have r: "resolve ?n G key < length V"
    using resolve_in_range [OF ok ne] lV by simp
  have v: "(if G ! primary ?n key < 0 then nat (- (G ! primary ?n key) - 1)
            else secondary ?n key (G ! primary ?n key)) = resolve ?n G key"
    by (simp add: resolve_def Let_def)
  show ?thesis
    unfolding lookUp_def Let_def v using n0 p r by simp
qed

lemma lookUp_Inr_stored:
  assumes "lookUp nKeys G V key = Inr bm"
  shows "0 < nKeys \<and> resolve nKeys G key < length V \<and> V ! resolve nKeys G key = Some (key, bm)"
proof -
  have v: "(if G ! primary nKeys key < 0 then nat (- (G ! primary nKeys key) - 1)
            else secondary nKeys key (G ! primary nKeys key)) = resolve nKeys G key"
    by (simp add: resolve_def Let_def)
  from assms show ?thesis
    unfolding lookUp_def Let_def v
    by (auto split: if_splits option.splits)
qed

subsection \<open>The claims about the builder and the lookup\<close>

lemma build_tablesOK:
  assumes "distinct (map fst source)" and "source \<noteq> []"
    and "createMinimalPerfectHash source = Inr (G, V, nCollisions)"
  shows "tablesOK source G V"
  using build_correct [OF assms(1,2)] assms(3) by simp

text \<open>
  Claim C1: for a dictionary of at least one key, all keys distinct, and the tables of a
  successful build, looking up a key of the dictionary returns the bitmap the dictionary
  gives it: the slot the tables assign to the key holds the key and that bitmap.
\<close>

theorem C1_lookup_returns_mapped_bitmap:
  assumes "distinct (map fst source)" and "source \<noteq> []"
    and "createMinimalPerfectHash source = Inr (G, V, nCollisions)"
    and "(key, bitmap) \<in> set source"
  shows "lookUp (length source) G V key = Inr bitmap \<and>
         resolve (length source) G key < length V \<and>
         V ! resolve (length source) G key = Some (key, bitmap)"
proof -
  from build_tablesOK [OF assms(1,2,3)] have ok: "tablesOK source G V" .
  then have "resolve (length source) G key < length source \<and>
             V ! resolve (length source) G key = Some (key, bitmap)"
    and "length V = length source"
    using assms(4) unfolding tablesOK_def by blast+
  then show ?thesis
    by (simp add: lookUp_tablesOK [OF ok assms(2)])
qed

theorem C1_lookup_returns_mapped_bitmap_witness:
  "distinct (map fst [([0, 0, 0x41 :: byte], [1, 2 :: byte]), ([0, 0, 0x42], [5, 6]),
      ([0, 0xFF, 0xFD], [3, 4])]) \<and>
   createMinimalPerfectHash
     [([0, 0, 0x41], [1, 2]), ([0, 0, 0x42], [5, 6]), ([0, 0xFF, 0xFD], [3, 4])] =
   Inr ([0, 2, - 2],
        [Some ([0, 0xFF, 0xFD], [3, 4]), Some ([0, 0, 0x41], [1, 2]), Some ([0, 0, 0x42], [5, 6])],
        1) \<and>
   lookUp 3 [0, 2, - 2]
     [Some ([0, 0xFF, 0xFD], [3, 4]), Some ([0, 0, 0x41], [1, 2]), Some ([0, 0, 0x42], [5, 6])]
     [0, 0xFF, 0xFD] = Inr [3, 4]"
proof -
  let ?S = "[([0, 0, 0x41 :: byte], [1, 2 :: byte]), ([0, 0, 0x42], [5, 6]),
      ([0, 0xFF, 0xFD], [3, 4])]"
  have d: "distinct (map fst ?S)" by simp
  have ne: "?S \<noteq> []" by simp
  have b: "createMinimalPerfectHash ?S =
     Inr ([0, 2, - 2],
        [Some ([0, 0xFF, 0xFD], [3, 4]), Some ([0, 0, 0x41], [1, 2]), Some ([0, 0, 0x42], [5, 6])],
        1)"
    by code_simp
  have m: "([0, 0xFF, 0xFD], [3, 4]) \<in> set ?S" by simp
  have l: "length ?S = 3" by simp
  from C1_lookup_returns_mapped_bitmap [OF d ne b m, unfolded l] d b show ?thesis
    by blast
qed

text \<open>
  Claim C2: for a dictionary of n keys, n at least one and all keys distinct, a successful
  build returns G and V of length n, no slot of V is empty, and the entries of V are the
  pairs of the dictionary, each exactly once.
\<close>

theorem C2_build_is_minimal_and_perfect:
  assumes "distinct (map fst source)" and "source \<noteq> []"
    and "createMinimalPerfectHash source = Inr (G, V, nCollisions)"
  shows "length G = length source \<and> length V = length source \<and> None \<notin> set V \<and>
         mset V = mset (map Some source) \<and>
         (\<forall>j < length source. \<exists>e \<in> set source. V ! j = Some e) \<and>
         (\<forall>e \<in> set source. \<exists>j < length source. V ! j = Some e)"
proof -
  let ?n = "length source"
  from build_tablesOK [OF assms] have ok: "tablesOK source G V" .
  then have lG: "length G = ?n" and lV: "length V = ?n"
    and t3: "\<And>k bm. (k, bm) \<in> set source \<Longrightarrow>
               resolve ?n G k < ?n \<and> V ! resolve ?n G k = Some (k, bm)"
    and t4: "\<forall>j < ?n. \<exists>e \<in> set source. V ! j = Some e"
    unfolding tablesOK_def by blast+
  have all: "\<exists>j < ?n. V ! j = Some e" if "e \<in> set source" for e
  proof -
    obtain k bm where e: "e = (k, bm)" by (cases e)
    with that t3 [of k bm] show ?thesis by blast
  qed
  have noNone: "None \<notin> set V"
  proof
    assume "None \<in> set V"
    then obtain j where "j < length V" "V ! j = None"
      by (auto simp: in_set_conv_nth)
    with t4 lV show False by auto
  qed
  have sub: "set (map Some source) \<subseteq> set V"
  proof
    fix x assume "x \<in> set (map Some source)"
    then obtain e where e: "e \<in> set source" "x = Some e" by auto
    from all [OF e(1)] obtain j where "j < ?n" "V ! j = Some e" by blast
    with lV e(2) show "x \<in> set V"
      by (metis nth_mem)
  qed
  from assms(1) have "distinct source"
    by (rule distinct_map [THEN iffD1, THEN conjunct1])
  then have dS: "distinct (map Some source)"
    by (simp add: distinct_map)
  then have cS: "card (set (map Some source)) = ?n"
    using distinct_card [OF dS] by simp
  have "card (set (map Some source)) \<le> card (set V)"
    using sub by (intro card_mono) simp_all
  moreover have "card (set V) \<le> length V"
    by (rule card_length)
  ultimately have cV: "card (set V) = ?n"
    using cS lV by simp
  then have dV: "distinct V"
    using lV by (intro card_distinct) simp
  have "set (map Some source) = set V"
    using sub cS cV by (intro card_subset_eq) simp_all
  then have "set V = set (map Some source)" ..
  then have "mset V = mset (map Some source)"
    by (rule set_eq_iff_mset_eq_distinct [OF dV dS, THEN iffD1])
  with lG lV noNone t4 all show ?thesis
    by blast
qed

theorem C2_build_is_minimal_and_perfect_witness:
  "createMinimalPerfectHash
     [([0, 0, 0x41], [1, 2]), ([0, 0, 0x42], [5, 6]), ([0, 0xFF, 0xFD], [3, 4])] =
   Inr ([0, 2, - 2],
        [Some ([0, 0xFF, 0xFD], [3, 4]), Some ([0, 0, 0x41], [1, 2]), Some ([0, 0, 0x42], [5, 6])],
        1) \<and>
   mset [Some ([0, 0xFF, 0xFD], [3, 4]), Some ([0, 0, 0x41], [1, 2]),
         Some ([0, 0, 0x42 :: byte], [5, 6 :: byte])] =
   mset (map Some [([0, 0, 0x41], [1, 2]), ([0, 0, 0x42], [5, 6]), ([0, 0xFF, 0xFD], [3, 4])])"
proof -
  let ?S = "[([0, 0, 0x41 :: byte], [1, 2 :: byte]), ([0, 0, 0x42], [5, 6]),
      ([0, 0xFF, 0xFD], [3, 4])]"
  have d: "distinct (map fst ?S)" by simp
  have ne: "?S \<noteq> []" by simp
  have b: "createMinimalPerfectHash ?S =
     Inr ([0, 2, - 2],
        [Some ([0, 0xFF, 0xFD], [3, 4]), Some ([0, 0, 0x41], [1, 2]), Some ([0, 0, 0x42], [5, 6])],
        1)"
    by code_simp
  from C2_build_is_minimal_and_perfect [OF d ne b] b show ?thesis
    by blast
qed

text \<open>
  Claim C5: on the tables of a successful build, looking up a key that is not in the
  dictionary never returns a bitmap; for a dictionary of at least one key it raises
  KeyError, because the key stored at the slot is another one. On any tables, a bitmap is
  returned only when the slot holds exactly the key that was asked for.
\<close>

theorem C5_absent_key_never_matches:
  assumes "distinct (map fst source)"
    and "createMinimalPerfectHash source = Inr (G, V, nCollisions)"
    and "key \<notin> fst ` set source"
  shows "(\<forall>bm. lookUp (length source) G V key \<noteq> Inr bm) \<and>
         (source \<noteq> [] \<longrightarrow> lookUp (length source) G V key = Inl KeyError) \<and>
         (\<forall>nKeys G' V' key' bm. lookUp nKeys G' V' key' = Inr bm \<longrightarrow>
            V' ! resolve nKeys G' key' = Some (key', bm))"
proof (intro conjI allI impI)
  show ke: "lookUp (length source) G V key = Inl KeyError" if ne: "source \<noteq> []"
  proof -
    let ?n = "length source"
    from build_tablesOK [OF assms(1) ne assms(2)] have ok: "tablesOK source G V" .
    from resolve_in_range [OF ok ne] have "resolve ?n G key < ?n" .
    with ok obtain e where e: "e \<in> set source" "V ! resolve ?n G key = Some e"
      unfolding tablesOK_def by blast
    obtain k bm where kb: "e = (k, bm)" by (cases e)
    with e(1) assms(3) have "k \<noteq> key" by force
    with e(2) kb show ?thesis
      by (simp add: lookUp_tablesOK [OF ok ne])
  qed
  show "lookUp (length source) G V key \<noteq> Inr bm" for bm
  proof (cases "source = []")
    case True
    then show ?thesis by (simp add: lookUp_def)
  next
    case False
    from ke [OF this] show ?thesis by simp
  qed
  show "V' ! resolve nKeys G' key' = Some (key', bm)"
    if "lookUp nKeys G' V' key' = Inr bm" for nKeys G' V' key' bm
    using lookUp_Inr_stored [OF that] by simp
qed

theorem C5_absent_key_never_matches_witness:
  "[0, 0, 0x43] \<notin> fst ` set [([0, 0, 0x41 :: byte], [1, 2 :: byte]), ([0, 0, 0x42], [5, 6]),
      ([0, 0xFF, 0xFD], [3, 4])] \<and>
   createMinimalPerfectHash
     [([0, 0, 0x41], [1, 2]), ([0, 0, 0x42], [5, 6]), ([0, 0xFF, 0xFD], [3, 4])] =
   Inr ([0, 2, - 2],
        [Some ([0, 0xFF, 0xFD], [3, 4]), Some ([0, 0, 0x41], [1, 2]), Some ([0, 0, 0x42], [5, 6])],
        1) \<and>
   lookUp 3 [0, 2, - 2]
     [Some ([0, 0xFF, 0xFD], [3, 4]), Some ([0, 0, 0x41], [1, 2]), Some ([0, 0, 0x42], [5, 6])]
     [0, 0, 0x43] = Inl KeyError"
proof -
  let ?S = "[([0, 0, 0x41 :: byte], [1, 2 :: byte]), ([0, 0, 0x42], [5, 6]),
      ([0, 0xFF, 0xFD], [3, 4])]"
  have d: "distinct (map fst ?S)" by simp
  have ne: "?S \<noteq> []" by simp
  have b: "createMinimalPerfectHash ?S =
     Inr ([0, 2, - 2],
        [Some ([0, 0xFF, 0xFD], [3, 4]), Some ([0, 0, 0x41], [1, 2]), Some ([0, 0, 0x42], [5, 6])],
        1)"
    by code_simp
  have a: "[0, 0, 0x43] \<notin> fst ` set ?S" by simp
  have l: "length ?S = 3" by simp
  from C5_absent_key_never_matches [OF d b a, unfolded l] ne a b show ?thesis
    by blast
qed

text \<open>
  Claim C9: after a successful build of n keys, the entry of G at index i is positive
  exactly when bucket i held two or more keys, negative exactly when it held one key, and
  0 exactly when it was empty; a negative entry is at least -n, so the direct slot it
  names is an index of V, and a positive entry is a seed of at most 0x7FFFFFFF. The lookup
  of any key on these tables returns a bitmap or raises KeyError: no subscript is out of
  range.
\<close>

theorem C9_sign_of_G_classifies_bucket:
  assumes "distinct (map fst source)" and "source \<noteq> []"
    and "createMinimalPerfectHash source = Inr (G, V, nCollisions)"
    and "i < length source"
  shows "(let n = length source;
              bucket = fillBuckets n (map fst source) (replicate n []) ! i
          in (0 < G ! i \<longleftrightarrow> 2 \<le> length bucket) \<and>
             (G ! i < 0 \<longleftrightarrow> length bucket = 1) \<and>
             (G ! i = 0 \<longleftrightarrow> bucket = []) \<and>
             (G ! i < 0 \<longrightarrow> - int n \<le> G ! i \<and> nat (- (G ! i) - 1) < length V) \<and>
             (0 < G ! i \<longrightarrow> G ! i \<le> 0x7FFFFFFF) \<and>
             (\<forall>key. lookUp n G V key = Inl KeyError \<or> (\<exists>bm. lookUp n G V key = Inr bm)))"
proof -
  let ?n = "length source"
  let ?b = "bucketOf ?n (map fst source) i"
  from assms(2) have n0: "0 < ?n" by simp
  from build_tablesOK [OF assms(1,2,3)] have ok: "tablesOK source G V" .
  have fb: "fillBuckets ?n (map fst source) (replicate ?n []) ! i = ?b"
    using n0 assms(4) by (simp add: fillBuckets_eq)
  from ok assms(4) have lV: "length V = ?n"
    and cls: "(?b = [] \<and> G ! i = 0) \<or> bucketClass ?n (map fst source) G i"
    unfolding tablesOK_def by blast+
  from cls have c: "(?b = [] \<and> G ! i = 0) \<or>
      (2 \<le> length ?b \<and> 1 \<le> G ! i \<and> G ! i \<le> FNV1MASK) \<or>
      (length ?b = 1 \<and> - int ?n \<le> G ! i \<and> G ! i \<le> - 1)"
    by (simp add: bucketClass_def)
  have p1: "0 < G ! i \<longleftrightarrow> 2 \<le> length ?b"
    using c by auto
  have p2: "G ! i < 0 \<longleftrightarrow> length ?b = 1"
    using c by auto
  have p3: "G ! i = 0 \<longleftrightarrow> ?b = []"
    using c by auto
  have p4: "G ! i < 0 \<longrightarrow> - int ?n \<le> G ! i \<and> nat (- (G ! i) - 1) < length V"
    using c lV by auto
  have p5: "0 < G ! i \<longrightarrow> G ! i \<le> 0x7FFFFFFF"
    using c by (auto simp: FNV1MASK_def)
  have p6: "lookUp ?n G V key = Inl KeyError \<or> (\<exists>bm. lookUp ?n G V key = Inr bm)" for key
  proof -
    from resolve_in_range [OF ok assms(2)] have "resolve ?n G key < ?n" .
    with ok obtain e where "V ! resolve ?n G key = Some e"
      unfolding tablesOK_def by blast
    then show ?thesis
      by (cases e) (simp add: lookUp_tablesOK [OF ok assms(2)])
  qed
  show ?thesis
    unfolding Let_def fb using p1 p2 p3 p4 p5 p6 by blast
qed

theorem C9_sign_of_G_classifies_bucket_witness:
  "createMinimalPerfectHash
     [([0, 0, 0x41], [1, 2]), ([0, 0, 0x42], [5, 6]), ([0, 0xFF, 0xFD], [3, 4])] =
   Inr ([0, 2, - 2],
        [Some ([0, 0xFF, 0xFD], [3, 4]), Some ([0, 0, 0x41], [1, 2]), Some ([0, 0, 0x42], [5, 6])],
        1) \<and>
   fillBuckets 3 [[0, 0, 0x41], [0, 0, 0x42], [0, 0xFF, 0xFD]] (replicate 3 []) =
     [[], [[0, 0, 0x42], [0, 0xFF, 0xFD]], [[0, 0, 0x41]]] \<and>
   (\<forall>key. lookUp 3 [0, 2, - 2]
      [Some ([0, 0xFF, 0xFD], [3, 4]), Some ([0, 0, 0x41], [1, 2]), Some ([0, 0, 0x42], [5, 6])]
      key = Inl KeyError \<or>
     (\<exists>bm. lookUp 3 [0, 2, - 2]
      [Some ([0, 0xFF, 0xFD], [3, 4]), Some ([0, 0, 0x41], [1, 2]), Some ([0, 0, 0x42], [5, 6])]
      key = Inr bm))"
proof -
  let ?S = "[([0, 0, 0x41 :: byte], [1, 2 :: byte]), ([0, 0, 0x42], [5, 6]),
      ([0, 0xFF, 0xFD], [3, 4])]"
  have d: "distinct (map fst ?S)" by simp
  have ne: "?S \<noteq> []" by simp
  have b: "createMinimalPerfectHash ?S =
     Inr ([0, 2, - 2],
        [Some ([0, 0xFF, 0xFD], [3, 4]), Some ([0, 0, 0x41], [1, 2]), Some ([0, 0, 0x42], [5, 6])],
        1)"
    by code_simp
  have f: "fillBuckets 3 [[0, 0, 0x41], [0, 0, 0x42], [0, 0xFF, 0xFD]] (replicate 3 []) =
     [[], [[0, 0, 0x42], [0, 0xFF, 0xFD]], [[0, 0, 0x41]]]"
    by code_simp
  have i: "1 < length ?S" by simp
  have l: "length ?S = 3" by simp
  from C9_sign_of_G_classifies_bucket [OF d ne b i, unfolded l Let_def] b f show ?thesis
    by blast
qed

subsection \<open>One bucket of step 3 inside the whole build\<close>

lemma placeBucket_spec:
  assumes "set bucket \<subseteq> fst ` set source" and "length V = nKeys" and "0 < nKeys"
  shows "case placeBucket nKeys source bucket (G, V, nCheck, nCollisions) of
            Inr (G', V', nCheck', nCollisions') \<Rightarrow>
              (\<exists>seed. 1 \<le> seed \<and> seed \<le> FNV1MASK \<and>
                 G' = G[primary nKeys (bucket ! 0) := seed] \<and>
                 seedOK nKeys V bucket seed \<and>
                 (\<forall>s. 1 \<le> s \<and> s < seed \<longrightarrow> \<not> seedOK nKeys V bucket s) \<and>
                 nCheck' = nCheck + length bucket \<and>
                 nCollisions' = nCollisions + nat (seed - 1) \<and>
                 (\<forall>key \<in> set bucket. \<exists>bm. (key, bm) \<in> set source \<and>
                    V' ! secondary nKeys key seed = Some (key, bm)))
          | Inl e \<Rightarrow>
              e = ValueError ''Hash seed exceeded 32 bit.'' \<and>
              (\<forall>s. 1 \<le> s \<and> s \<le> FNV1MASK \<longrightarrow> \<not> seedOK nKeys V bucket s)"
proof -
  have fs: "case findSeed nKeys V bucket 1 0 [] nCollisions of
           Inl e \<Rightarrow> e = ValueError ''Hash seed exceeded 32 bit.'' \<and>
                    (\<forall>s'. 1 \<le> s' \<and> s' \<le> FNV1MASK \<longrightarrow> \<not> seedOK nKeys V bucket s')
         | Inr (s, sl, nc') \<Rightarrow>
             1 \<le> s \<and> s \<le> FNV1MASK \<and> seedOK nKeys V bucket s \<and>
             sl = map (\<lambda>key. secondary nKeys key s) bucket \<and>
             (\<forall>s'. 1 \<le> s' \<and> s' < s \<longrightarrow> \<not> seedOK nKeys V bucket s') \<and>
             nc' = nCollisions + nat (s - 1)"
    by (rule findSeed_spec) (auto simp: FNV1MASK_def)
  show ?thesis
  proof (cases "findSeed nKeys V bucket 1 0 [] nCollisions")
    case (Inl e)
    then have pb: "placeBucket nKeys source bucket (G, V, nCheck, nCollisions) = Inl e"
      by (simp add: placeBucket_def)
    with fs Inl show ?thesis
      by simp
  next
    case (Inr r)
    obtain s sl nc' where r: "r = (s, sl, nc')"
      by (cases r)
    from fs Inr r have s1: "1 \<le> s" and s2: "s \<le> FNV1MASK" and ok: "seedOK nKeys V bucket s"
      and sl: "sl = map (\<lambda>key. secondary nKeys key s) bucket"
      and least: "\<forall>s'. 1 \<le> s' \<and> s' < s \<longrightarrow> \<not> seedOK nKeys V bucket s'"
      and nc: "nc' = nCollisions + nat (s - 1)"
      by simp_all
    have dsl: "distinct sl"
      using ok sl by (simp add: seedOK_def)
    have lsl: "length sl = length bucket"
      by (simp add: sl)
    have slt: "\<forall>x \<in> set sl. x < length V"
      using assms(2,3) by (auto simp: sl secondary_less)
    have "0 + length sl \<le> length bucket"
      by (simp add: lsl)
    from spread_spec [OF this assms(1) dsl slt] obtain V' where
      sp: "spread source bucket 0 sl V = Inr V'"
      and new: "\<forall>j < length sl. \<exists>bm. (bucket ! (0 + j), bm) \<in> set source \<and>
                  V' ! (sl ! j) = Some (bucket ! (0 + j), bm)"
      by blast
    have stored: "\<exists>bm. (key, bm) \<in> set source \<and>
        V' ! secondary nKeys key s = Some (key, bm)"
      if "key \<in> set bucket" for key
    proof -
      from that obtain j where j: "j < length bucket" "bucket ! j = key"
        by (auto simp: in_set_conv_nth)
      with new lsl show ?thesis
        by (auto simp: sl)
    qed
    have pb: "placeBucket nKeys source bucket (G, V, nCheck, nCollisions) =
              Inr (G[primary nKeys (bucket ! 0) := s], V', nCheck + length bucket, nc')"
      by (simp add: placeBucket_def Inr r sp lsl)
    have "\<exists>seed. 1 \<le> seed \<and> seed \<le> FNV1MASK \<and>
                 G[primary nKeys (bucket ! 0) := s] = G[primary nKeys (bucket ! 0) := seed] \<and>
                 seedOK nKeys V bucket seed \<and>
                 (\<forall>s. 1 \<le> s \<and> s < seed \<longrightarrow> \<not> seedOK nKeys V bucket s) \<and>
                 nCheck + length bucket = nCheck + length bucket \<and>
                 nc' = nCollisions + nat (seed - 1) \<and>
                 (\<forall>key \<in> set bucket. \<exists>bm. (key, bm) \<in> set source \<and>
                    V' ! secondary nKeys key seed = Some (key, bm))"
      using s1 s2 ok least nc stored
      by (intro exI [of _ s] conjI refl) blast+
    then show ?thesis
      by (simp only: pb sum.case prod.case)
  qed
qed

lemma step3_append:
  "step3 n src (xs @ ys) st =
     (case step3 n src xs st of
        Inl e \<Rightarrow> Inl e
      | Inr (rest, st') \<Rightarrow> if rest = [] then step3 n src ys st' else Inr (rest @ ys, st'))"
proof (induction xs arbitrary: st)
  case Nil
  show ?case by simp
next
  case (Cons b xs)
  show ?case
  proof (cases "1 < length b")
    case True
    show ?thesis
    proof (cases "placeBucket n src b st")
      case (Inl e)
      with True show ?thesis by simp
    next
      case (Inr st')
      with True Cons.IH [of st'] show ?thesis by simp
    qed
  next
    case False
    then show ?thesis by simp
  qed
qed

lemma placeBucket_G:
  assumes "placeBucket n src b (G, V, c, nc) = Inr (G', V', c', nc')"
  shows "\<exists>seed. G' = G[primary n (b ! 0) := seed]"
  using assms unfolding placeBucket_def
  by (auto split: sum.splits prod.splits)

lemma step3_G_other:
  "step3 n src bs (G, V, c, nc) = Inr (bs', G', V', c', nc') \<Longrightarrow>
   \<forall>b \<in> set bs. b \<noteq> [] \<longrightarrow> primary n (b ! 0) \<noteq> i \<Longrightarrow>
   G' ! i = G ! i \<and> set bs' \<subseteq> set bs"
proof (induction bs arbitrary: G V c nc)
  case Nil
  then show ?case by simp
next
  case (Cons b bs)
  show ?case
  proof (cases "1 < length b")
    case True
    with Cons.prems(1) obtain st where pb: "placeBucket n src b (G, V, c, nc) = Inr st"
      and rest: "step3 n src bs st = Inr (bs', G', V', c', nc')"
      by (auto split: sum.splits)
    obtain G1 V1 c1 nc1 where st: "st = (G1, V1, c1, nc1)"
      by (cases st)
    from placeBucket_G [OF pb [unfolded st]] obtain seed where
      G1: "G1 = G[primary n (b ! 0) := seed]" by blast
    from True have "b \<noteq> []" by auto
    with Cons.prems(2) have "primary n (b ! 0) \<noteq> i" by simp
    with G1 have "G1 ! i = G ! i" by simp
    moreover from Cons.prems(2) have "\<forall>b \<in> set bs. b \<noteq> [] \<longrightarrow> primary n (b ! 0) \<noteq> i"
      by simp
    from Cons.IH [OF rest [unfolded st] this] have "G' ! i = G1 ! i \<and> set bs' \<subseteq> set bs" .
    ultimately show ?thesis by auto
  next
    case False
    with Cons.prems(1) show ?thesis by auto
  qed
qed

lemma step4_G_other:
  "step4 n src bs k G V c = Inr (G', V', c') \<Longrightarrow>
   \<forall>b \<in> set bs. b \<noteq> [] \<longrightarrow> primary n (b ! 0) \<noteq> i \<Longrightarrow>
   G' ! i = G ! i"
proof (induction bs arbitrary: k G V c)
  case Nil
  then show ?case by simp
next
  case (Cons b bs)
  show ?case
  proof (cases "0 < length b")
    case True
    with Cons.prems(1) obtain bm where
      rest: "step4 n src bs (nextFree V k)
               (G[primary n (b ! 0) := - int (nextFree V k) - 1])
               (V[nextFree V k := Some (b ! 0, bm)]) (c + 1) = Inr (G', V', c')"
      by (auto simp: Let_def split: if_splits sum.splits)
    from True Cons.prems(2) have ne: "primary n (b ! 0) \<noteq> i" by simp
    from Cons.prems(2) have "\<forall>b \<in> set bs. b \<noteq> [] \<longrightarrow> primary n (b ! 0) \<noteq> i"
      by simp
    from Cons.IH [OF rest this] ne show ?thesis by simp
  next
    case False
    with Cons.prems(1) show ?thesis by simp
  qed
qed

lemma bucketOf_head:
  assumes "bucketOf n keys j \<noteq> []"
  shows "primary n (bucketOf n keys j ! 0) = j"
proof -
  from assms have "bucketOf n keys j ! 0 \<in> set (bucketOf n keys j)"
    by simp
  then show ?thesis
    by (simp add: bucketOf_def)
qed

lemma step3_prefix_inv:
  assumes dk: "distinct (map fst src)"
  shows "buildInv n src (idxA @ idxB) G V nCheck \<Longrightarrow> distinct (idxA @ idxB) \<Longrightarrow>
     set (idxA @ idxB) \<subseteq> {..<n} \<Longrightarrow>
     \<forall>i \<in> set idxA. 2 \<le> length (bucketOf n (map fst src) i) \<Longrightarrow>
     (case step3 n src (map (bucketOf n (map fst src)) idxA) (G, V, nCheck, nColl) of
        Inl e \<Rightarrow> e = ValueError ''Hash seed exceeded 32 bit.''
      | Inr (bs, G', V', nCheck', nColl') \<Rightarrow> bs = [] \<and> buildInv n src idxB G' V' nCheck')"
proof (induction idxA arbitrary: G V nCheck nColl)
  case Nil
  then show ?case by simp
next
  case (Cons i idxA)
  let ?b = "bucketOf n (map fst src) i"
  from Cons.prems have i: "i < n" and d: "distinct (idxA @ idxB)"
    and sub: "set (idxA @ idxB) \<subseteq> {..<n}" and len: "2 \<le> length ?b"
    and lens: "\<forall>i \<in> set idxA. 2 \<le> length (bucketOf n (map fst src) i)"
    by simp_all
  from Cons.prems(1,2) have inv: "buildInv n src (i # (idxA @ idxB)) G V nCheck"
    and di: "distinct (i # (idxA @ idxB))"
    by simp_all
  from placeBucket_inv [OF inv di i dk refl len, of nColl]
  have pb: "case placeBucket n src ?b (G, V, nCheck, nColl) of
         Inl e \<Rightarrow> e = ValueError ''Hash seed exceeded 32 bit.''
       | Inr (G', V', nCheck', nColl') \<Rightarrow> buildInv n src (idxA @ idxB) G' V' nCheck'" .
  from len have one: "1 < length ?b" by simp
  show ?case
  proof (cases "placeBucket n src ?b (G, V, nCheck, nColl)")
    case (Inl e)
    with pb one show ?thesis by simp
  next
    case (Inr st)
    obtain G' V' nCheck' nColl' where st: "st = (G', V', nCheck', nColl')"
      by (cases st)
    with pb Inr have "buildInv n src (idxA @ idxB) G' V' nCheck'" by simp
    from Cons.IH [OF this d sub lens, of nColl'] one Inr st show ?thesis
      by simp
  qed
qed

lemma spread_length:
  "spread src b k slots V = Inr V' \<Longrightarrow> length V' = length V"
proof (induction slots arbitrary: k V)
  case Nil
  then show ?case by simp
next
  case (Cons slot slots)
  from Cons.prems obtain bm where
    "spread src b (k + 1) slots (V[slot := Some (b ! k, bm)]) = Inr V'"
    by (auto split: sum.splits)
  from Cons.IH [OF this] show ?case by simp
qed

lemma placeBucket_length_V:
  assumes "placeBucket n src b (G, V, c, nc) = Inr (G', V', c', nc')"
  shows "length V' = length V"
proof -
  from assms obtain slots where "spread src b 0 slots V = Inr V'"
    unfolding placeBucket_def by (auto split: sum.splits prod.splits)
  then show ?thesis by (rule spread_length)
qed

lemma step3_fail_cause:
  assumes n0: "0 < n"
  shows "step3 n src bs (G, V, c, nc) = Inl e \<Longrightarrow> length V = n \<Longrightarrow>
     \<forall>b \<in> set bs. set b \<subseteq> fst ` set src \<Longrightarrow>
     e = ValueError ''Hash seed exceeded 32 bit.'' \<and>
     (\<exists>pre b post G0 V0 c0 nc0. bs = pre @ b # post \<and>
        step3 n src pre (G, V, c, nc) = Inr ([], G0, V0, c0, nc0) \<and>
        (\<forall>s. 1 \<le> s \<and> s \<le> FNV1MASK \<longrightarrow> \<not> seedOK n V0 b s))"
proof (induction bs arbitrary: G V c nc)
  case Nil
  then show ?case by simp
next
  case (Cons b bs)
  from Cons.prems(1) have one: "1 < length b"
    by (auto split: if_splits)
  from Cons.prems(3) have kb: "set b \<subseteq> fst ` set src"
    and kbs: "\<forall>b \<in> set bs. set b \<subseteq> fst ` set src"
    by simp_all
  note ps = placeBucket_spec [OF kb Cons.prems(2) n0, of G c nc]
  show ?case
  proof (cases "placeBucket n src b (G, V, c, nc)")
    case (Inl e')
    with one Cons.prems(1) have "e' = e" by simp
    with ps Inl have e: "e = ValueError ''Hash seed exceeded 32 bit.''"
      and no: "\<forall>s. 1 \<le> s \<and> s \<le> FNV1MASK \<longrightarrow> \<not> seedOK n V b s"
      by simp_all
    have "b # bs = [] @ b # bs \<and> step3 n src [] (G, V, c, nc) = Inr ([], G, V, c, nc) \<and>
          (\<forall>s. 1 \<le> s \<and> s \<le> FNV1MASK \<longrightarrow> \<not> seedOK n V b s)"
      using no by simp
    with e show ?thesis by blast
  next
    case (Inr st)
    obtain G1 V1 c1 nc1 where st: "st = (G1, V1, c1, nc1)"
      by (cases st)
    from Inr one Cons.prems(1) have rest: "step3 n src bs (G1, V1, c1, nc1) = Inl e"
      by (simp add: st)
    from placeBucket_length_V [OF Inr [unfolded st]] Cons.prems(2) have lV: "length V1 = n"
      by simp
    from Cons.IH [OF rest lV kbs] obtain pre b' post G0 V0 c0 nc0 where
      e: "e = ValueError ''Hash seed exceeded 32 bit.''"
      and bs: "bs = pre @ b' # post"
      and s3: "step3 n src pre (G1, V1, c1, nc1) = Inr ([], G0, V0, c0, nc0)"
      and no: "\<forall>s. 1 \<le> s \<and> s \<le> FNV1MASK \<longrightarrow> \<not> seedOK n V0 b' s"
      by blast
    have "b # bs = (b # pre) @ b' # post"
      using bs by simp
    moreover have "step3 n src (b # pre) (G, V, c, nc) = Inr ([], G0, V0, c0, nc0)"
      using one Inr st s3 by simp
    ultimately show ?thesis
      using e no by blast
  qed
qed

lemma least_seed_unique:
  assumes "seedOK n V b s" and "\<forall>x. 1 \<le> x \<and> x < s \<longrightarrow> \<not> seedOK n V b x" and "1 \<le> s"
    and "seedOK n V b t" and "\<forall>x. 1 \<le> x \<and> x < t \<longrightarrow> \<not> seedOK n V b x" and "1 \<le> t"
  shows "s = (t :: int)"
proof (rule ccontr)
  assume "s \<noteq> t"
  then consider "s < t" | "t < s" by linarith
  then show False
  proof cases
    case 1
    with assms(1,3,5) show False by blast
  next
    case 2
    with assms(2,4,6) show False by blast
  qed
qed

lemma bucket_in_build:
  assumes dk: "distinct (map fst source)" and ne: "source \<noteq> []"
    and split: "sortBuckets (fillBuckets (length source) (map fst source)
                  (replicate (length source) [])) = before @ bucket # after"
    and len: "2 \<le> length bucket"
  shows "case step3 (length source) source before
                (replicate (length source) 0, replicate (length source) None, 0, 0) of
           Inl e \<Rightarrow>
             createMinimalPerfectHash source = Inl e \<and>
             e = ValueError ''Hash seed exceeded 32 bit.'' \<and>
             (\<exists>pre b post G0 V0 nCheck0 nCollisions0. before = pre @ b # post \<and>
                step3 (length source) source pre (replicate (length source) 0, replicate (length source) None, 0, 0) =
                  Inr ([], G0, V0, nCheck0, nCollisions0) \<and>
                (\<forall>s. 1 \<le> s \<and> s \<le> FNV1MASK \<longrightarrow> \<not> seedOK (length source) V0 b s))
         | Inr (rest, G0, V0, nCheck0, nCollisions0) \<Rightarrow>
             rest = [] \<and> length G0 = length source \<and> length V0 = length source \<and>
             ((\<forall>s. 1 \<le> s \<and> s \<le> FNV1MASK \<longrightarrow> \<not> seedOK (length source) V0 bucket s) \<longrightarrow>
                createMinimalPerfectHash source = Inl (ValueError ''Hash seed exceeded 32 bit.'')) \<and>
             (\<forall>seed. 1 \<le> seed \<and> seed \<le> FNV1MASK \<and> seedOK (length source) V0 bucket seed \<and>
                (\<forall>s. 1 \<le> s \<and> s < seed \<longrightarrow> \<not> seedOK (length source) V0 bucket s) \<longrightarrow>
                (\<exists>V1. step3 (length source) source (before @ [bucket])
                        (replicate (length source) 0, replicate (length source) None, 0, 0) =
                      Inr ([], G0[primary (length source) (bucket ! 0) := seed], V1,
                           nCheck0 + length bucket, nCollisions0 + nat (seed - 1)) \<and>
                   (\<forall>key \<in> set bucket. \<exists>bm. (key, bm) \<in> set source \<and>
                      V1 ! secondary (length source) key seed = Some (key, bm))) \<and>
                (\<forall>G V nc. createMinimalPerfectHash source = Inr (G, V, nc) \<longrightarrow>
                   G ! primary (length source) (bucket ! 0) = seed))"
proof -
  define n where "n = length source"
  let ?keys = "map fst source"
  let ?init = "(replicate n (0::int), replicate n (None :: entry option), 0::nat, 0::nat)"
  from ne have n0: "0 < n" by (simp add: n_def)
  from sortBuckets_eq [of n ?keys] obtain idx0 where
    sb: "sortBuckets (map (bucketOf n ?keys) [0..<n]) = map (bucketOf n ?keys) idx0"
    and d0: "distinct idx0" and s0: "set idx0 = {..<n}" and so0: "sortedIdx n ?keys idx0"
    by blast
  have buckets: "sortBuckets (fillBuckets n ?keys (replicate n [])) = map (bucketOf n ?keys) idx0"
    using n0 by (simp add: fillBuckets_eq sb)
  with split have "map (bucketOf n ?keys) idx0 = before @ bucket # after"
    by (simp add: n_def)
  then obtain idxA i idxB where idx0: "idx0 = idxA @ i # idxB"
    and bef: "before = map (bucketOf n ?keys) idxA"
    and buc: "bucket = bucketOf n ?keys i"
    and aft: "after = map (bucketOf n ?keys) idxB"
    by (auto simp: map_eq_append_conv map_eq_Cons_conv)
  have i: "i < n" and iA: "i \<notin> set idxA" and iB: "i \<notin> set idxB"
    using d0 s0 idx0 by auto
  have srt: "sorted (map (\<lambda>j. - int (length (bucketOf n ?keys j))) (idxA @ i # idxB))"
    using so0 by (simp add: sortedIdx_def idx0)
  have lensA: "\<forall>j \<in> set idxA. 2 \<le> length (bucketOf n ?keys j)"
  proof
    fix j assume "j \<in> set idxA"
    with srt have "- int (length (bucketOf n ?keys j)) \<le> - int (length (bucketOf n ?keys i))"
      by (auto simp: sorted_append)
    with len buc show "2 \<le> length (bucketOf n ?keys j)" by simp
  qed
  have inv0: "buildInv n source (idxA @ (i # idxB)) (replicate n 0) (replicate n None) 0"
    using buildInv_initial [OF n0 s0, of source] by (simp add: idx0)
  have dAB: "distinct (idxA @ (i # idxB))" and subAB: "set (idxA @ (i # idxB)) \<subseteq> {..<n}"
    using d0 s0 idx0 by simp_all
  note pre = step3_prefix_inv [OF dk inv0 dAB subAB lensA, of 0, folded bef]
  have unf: "createMinimalPerfectHash source =
     (case step3 n source (before @ bucket # after) ?init of
        Inl e \<Rightarrow> Inl e
      | Inr (buckets', G, V, nCheck, nCollisions) \<Rightarrow>
          (case step4 n source buckets' 0 G V nCheck of
             Inl e \<Rightarrow> Inl e
           | Inr (G', V', nCheck') \<Rightarrow>
               if n = nCheck' then Inr (G', V', nCollisions)
               else Inl (ValueError
                 ''Mismatch between number of keys and number of processed keys.'')))"
    unfolding createMinimalPerfectHash_def Let_def n_def [symmetric] split [unfolded n_def [symmetric]] ..
  have bne: "bucket \<noteq> []"
    using len by auto
  have p0: "primary n (bucket ! 0) = i"
    using bucketOf_head [of n ?keys i] bne by (simp add: buc)
  have keysB: "set bucket \<subseteq> fst ` set source"
    by (auto simp: buc bucketOf_def)
  have one: "1 < length bucket"
    using len by simp
  have other: "\<forall>b \<in> set after. b \<noteq> [] \<longrightarrow> primary n (b ! 0) \<noteq> i"
  proof (intro ballI impI)
    fix b assume "b \<in> set after" "b \<noteq> []"
    then obtain j where j: "j \<in> set idxB" "b = bucketOf n ?keys j"
      by (auto simp: aft)
    with \<open>b \<noteq> []\<close> bucketOf_head [of n ?keys j] have "primary n (b ! 0) = j" by simp
    with j(1) iB show "primary n (b ! 0) \<noteq> i" by auto
  qed
  show ?thesis
    unfolding n_def [symmetric]
  proof (cases "step3 n source before ?init")
    case (Inl e)
    then have "step3 n source (before @ bucket # after) ?init = Inl e"
      by (simp add: step3_append)
    then have A: "createMinimalPerfectHash source = Inl e"
      by (simp add: unf)
    have lV: "length (replicate n (None :: entry option)) = n"
      by simp
    have ks: "\<forall>b \<in> set before. set b \<subseteq> fst ` set source"
      by (auto simp: bef bucketOf_def)
    note B = step3_fail_cause [OF n0 Inl lV ks]
    from A B show "case step3 n source before ?init of
           Inl e \<Rightarrow>
             createMinimalPerfectHash source = Inl e \<and>
             e = ValueError ''Hash seed exceeded 32 bit.'' \<and>
             (\<exists>pre b post G0 V0 nCheck0 nCollisions0. before = pre @ b # post \<and>
                step3 n source pre ?init =
                  Inr ([], G0, V0, nCheck0, nCollisions0) \<and>
                (\<forall>s. 1 \<le> s \<and> s \<le> FNV1MASK \<longrightarrow> \<not> seedOK n V0 b s))
         | Inr (rest, G0, V0, nCheck0, nCollisions0) \<Rightarrow>
             rest = [] \<and> length G0 = n \<and> length V0 = n \<and>
             ((\<forall>s. 1 \<le> s \<and> s \<le> FNV1MASK \<longrightarrow> \<not> seedOK n V0 bucket s) \<longrightarrow>
                createMinimalPerfectHash source = Inl (ValueError ''Hash seed exceeded 32 bit.'')) \<and>
             (\<forall>seed. 1 \<le> seed \<and> seed \<le> FNV1MASK \<and> seedOK n V0 bucket seed \<and>
                (\<forall>s. 1 \<le> s \<and> s < seed \<longrightarrow> \<not> seedOK n V0 bucket s) \<longrightarrow>
                (\<exists>V1. step3 n source (before @ [bucket]) ?init =
                      Inr ([], G0[primary n (bucket ! 0) := seed], V1,
                           nCheck0 + length bucket, nCollisions0 + nat (seed - 1)) \<and>
                   (\<forall>key \<in> set bucket. \<exists>bm. (key, bm) \<in> set source \<and>
                      V1 ! secondary n key seed = Some (key, bm))) \<and>
                (\<forall>G V nc. createMinimalPerfectHash source = Inr (G, V, nc) \<longrightarrow>
                   G ! primary n (bucket ! 0) = seed))"
      by (simp only: Inl sum.case)
  next
    case (Inr r)
    obtain rest G0 V0 c0 nc0 where r: "r = (rest, G0, V0, c0, nc0)"
      by (cases r)
    from pre Inr r have rest: "rest = []" and inv: "buildInv n source (i # idxB) G0 V0 c0"
      by simp_all
    note I = buildInvD [OF inv]
    have s3b: "step3 n source before ?init = Inr ([], G0, V0, c0, nc0)"
      using Inr r rest by simp
    note ps = placeBucket_spec [OF keysB I(2) n0, of G0 c0 nc0]
    have none: "createMinimalPerfectHash source = Inl (ValueError ''Hash seed exceeded 32 bit.'')"
      if no: "\<forall>s. 1 \<le> s \<and> s \<le> FNV1MASK \<longrightarrow> \<not> seedOK n V0 bucket s"
    proof (cases "placeBucket n source bucket (G0, V0, c0, nc0)")
      case (Inl e)
      with ps have e: "e = ValueError ''Hash seed exceeded 32 bit.''" by simp
      have "step3 n source (before @ bucket # after) ?init = Inl e"
        using Inl one by (simp add: step3_append s3b)
      with e show ?thesis by (simp add: unf)
    next
      case (Inr st)
      with ps no show ?thesis
        by (cases st) auto
    qed
    have some: "(\<exists>V1. step3 n source (before @ [bucket]) ?init =
                      Inr ([], G0[primary n (bucket ! 0) := seed], V1,
                           c0 + length bucket, nc0 + nat (seed - 1)) \<and>
                   (\<forall>key \<in> set bucket. \<exists>bm. (key, bm) \<in> set source \<and>
                      V1 ! secondary n key seed = Some (key, bm))) \<and>
                (\<forall>G V nc. createMinimalPerfectHash source = Inr (G, V, nc) \<longrightarrow>
                   G ! primary n (bucket ! 0) = seed)"
      if good: "1 \<le> seed \<and> seed \<le> FNV1MASK \<and> seedOK n V0 bucket seed \<and>
                (\<forall>s. 1 \<le> s \<and> s < seed \<longrightarrow> \<not> seedOK n V0 bucket s)" for seed
    proof (cases "placeBucket n source bucket (G0, V0, c0, nc0)")
      case (Inl e)
      with ps good show ?thesis by auto
    next
      case (Inr st)
      obtain G1 V1 c1 nc1 where st: "st = (G1, V1, c1, nc1)"
        by (cases st)
      from ps Inr st obtain t where t: "1 \<le> t" "seedOK n V0 bucket t"
        "\<forall>s. 1 \<le> s \<and> s < t \<longrightarrow> \<not> seedOK n V0 bucket s"
        and G1: "G1 = G0[primary n (bucket ! 0) := t]"
        and c1: "c1 = c0 + length bucket" and nc1: "nc1 = nc0 + nat (t - 1)"
        and stored: "\<forall>key \<in> set bucket. \<exists>bm. (key, bm) \<in> set source \<and>
                    V1 ! secondary n key t = Some (key, bm)"
        by auto
      from good have g: "seedOK n V0 bucket seed"
        "\<forall>s. 1 \<le> s \<and> s < seed \<longrightarrow> \<not> seedOK n V0 bucket s" "1 \<le> seed"
        by simp_all
      from least_seed_unique [OF g t(2,3,1)] have ts: "t = seed" by simp
      have pb: "placeBucket n source bucket (G0, V0, c0, nc0) =
                Inr (G0[primary n (bucket ! 0) := seed], V1, c0 + length bucket,
                     nc0 + nat (seed - 1))"
        using Inr st G1 c1 nc1 ts by simp
      have s3: "step3 n source (before @ [bucket]) ?init =
                Inr ([], G0[primary n (bucket ! 0) := seed], V1, c0 + length bucket,
                     nc0 + nat (seed - 1))"
        using one pb by (simp add: step3_append s3b)
      have final: "G ! primary n (bucket ! 0) = seed"
        if b: "createMinimalPerfectHash source = Inr (G, V, nc)" for G V nc
      proof -
        have app: "step3 n source (before @ bucket # after) ?init =
              step3 n source after (G0[primary n (bucket ! 0) := seed], V1,
                 c0 + length bucket, nc0 + nat (seed - 1))"
          using step3_append [of n source "before @ [bucket]" after ?init] s3 by simp
        from b obtain bs' Ga Va ca nca cb where
          a: "step3 n source after (G0[primary n (bucket ! 0) := seed], V1,
                 c0 + length bucket, nc0 + nat (seed - 1)) = Inr (bs', Ga, Va, ca, nca)"
          and s4: "step4 n source bs' 0 Ga Va ca = Inr (G, V, cb)"
          unfolding unf app by (auto split: sum.splits if_splits)
        from step3_G_other [OF a other] have
          Ga: "Ga ! i = (G0[primary n (bucket ! 0) := seed]) ! i" and sub: "set bs' \<subseteq> set after"
          by simp_all
        from other sub have "\<forall>b \<in> set bs'. b \<noteq> [] \<longrightarrow> primary n (b ! 0) \<noteq> i"
          by blast
        from step4_G_other [OF s4 this] have "G ! i = Ga ! i" .
        with Ga p0 i I(1) show ?thesis by simp
      qed
      from s3 stored ts final show ?thesis by blast
    qed
    from none some I(1,2) show "case step3 n source before ?init of
           Inl e \<Rightarrow>
             createMinimalPerfectHash source = Inl e \<and>
             e = ValueError ''Hash seed exceeded 32 bit.'' \<and>
             (\<exists>pre b post G0 V0 nCheck0 nCollisions0. before = pre @ b # post \<and>
                step3 n source pre ?init =
                  Inr ([], G0, V0, nCheck0, nCollisions0) \<and>
                (\<forall>s. 1 \<le> s \<and> s \<le> FNV1MASK \<longrightarrow> \<not> seedOK n V0 b s))
         | Inr (rest, G0, V0, nCheck0, nCollisions0) \<Rightarrow>
             rest = [] \<and> length G0 = n \<and> length V0 = n \<and>
             ((\<forall>s. 1 \<le> s \<and> s \<le> FNV1MASK \<longrightarrow> \<not> seedOK n V0 bucket s) \<longrightarrow>
                createMinimalPerfectHash source = Inl (ValueError ''Hash seed exceeded 32 bit.'')) \<and>
             (\<forall>seed. 1 \<le> seed \<and> seed \<le> FNV1MASK \<and> seedOK n V0 bucket seed \<and>
                (\<forall>s. 1 \<le> s \<and> s < seed \<longrightarrow> \<not> seedOK n V0 bucket s) \<longrightarrow>
                (\<exists>V1. step3 n source (before @ [bucket]) ?init =
                      Inr ([], G0[primary n (bucket ! 0) := seed], V1,
                           nCheck0 + length bucket, nCollisions0 + nat (seed - 1)) \<and>
                   (\<forall>key \<in> set bucket. \<exists>bm. (key, bm) \<in> set source \<and>
                      V1 ! secondary n key seed = Some (key, bm))) \<and>
                (\<forall>G V nc. createMinimalPerfectHash source = Inr (G, V, nc) \<longrightarrow>
                   G ! primary n (bucket ! 0) = seed))"
      by (simp only: s3b sum.case prod.case) blast
  qed
qed

text \<open>
  Claim C4: take any bucket of two or more keys in the sorted list of buckets of a
  build; the buckets before it are those the loop of step 3 has processed when its turn
  comes. The loop fails on them only when one of them, at its own turn, had no seed from
  1 to 0x7FFFFFFF sending its keys to pairwise distinct free slots; the build then fails
  with the ValueError of the seed. Otherwise the loop has reached this bucket with tables
  G0 and V0 of length n, and
  \<^item> if no seed from 1 to 0x7FFFFFFF sends the keys of the bucket to pairwise distinct
    slots that are free in V0, the build fails with the ValueError of the seed and
    returns no tables;
  \<^item> if there is one, the loop records the smallest such seed in G at the index of the
    bucket, stores every key of the bucket at its slot, adds the number of keys to the
    check count and one to the collision counter for each smaller seed it rejected, and
    goes on; and in the tables a successful build returns, the entry of G at the index of
    the bucket is that seed.
  A build of a dictionary with distinct keys fails with no other error.
\<close>

theorem C4_smallest_good_seed_or_error:
  assumes "distinct (map fst source)" and "source \<noteq> []"
    and "sortBuckets (fillBuckets (length source) (map fst source)
           (replicate (length source) [])) = before @ bucket # after"
    and "2 \<le> length bucket"
  shows "(case step3 (length source) source before
                (replicate (length source) 0, replicate (length source) None, 0, 0) of
           Inl e \<Rightarrow>
             createMinimalPerfectHash source = Inl e \<and>
             e = ValueError ''Hash seed exceeded 32 bit.'' \<and>
             (\<exists>pre b post G0 V0 nCheck0 nCollisions0. before = pre @ b # post \<and>
                step3 (length source) source pre
                  (replicate (length source) 0, replicate (length source) None, 0, 0) =
                  Inr ([], G0, V0, nCheck0, nCollisions0) \<and>
                (\<forall>s. 1 \<le> s \<and> s \<le> 0x7FFFFFFF \<longrightarrow> \<not> seedOK (length source) V0 b s))
         | Inr (rest, G0, V0, nCheck0, nCollisions0) \<Rightarrow>
             rest = [] \<and> length G0 = length source \<and> length V0 = length source \<and>
             ((\<forall>s. 1 \<le> s \<and> s \<le> 0x7FFFFFFF \<longrightarrow> \<not> seedOK (length source) V0 bucket s) \<longrightarrow>
                createMinimalPerfectHash source = Inl (ValueError ''Hash seed exceeded 32 bit.'')) \<and>
             (\<forall>seed. 1 \<le> seed \<and> seed \<le> 0x7FFFFFFF \<and> seedOK (length source) V0 bucket seed \<and>
                (\<forall>s. 1 \<le> s \<and> s < seed \<longrightarrow> \<not> seedOK (length source) V0 bucket s) \<longrightarrow>
                (\<exists>V1. step3 (length source) source (before @ [bucket])
                        (replicate (length source) 0, replicate (length source) None, 0, 0) =
                      Inr ([], G0[primary (length source) (bucket ! 0) := seed], V1,
                           nCheck0 + length bucket, nCollisions0 + nat (seed - 1)) \<and>
                   (\<forall>key \<in> set bucket. \<exists>bm. (key, bm) \<in> set source \<and>
                      V1 ! secondary (length source) key seed = Some (key, bm))) \<and>
                (\<forall>G V nc. createMinimalPerfectHash source = Inr (G, V, nc) \<longrightarrow>
                   G ! primary (length source) (bucket ! 0) = seed))) \<and>
         (\<forall>e. createMinimalPerfectHash source = Inl e \<longrightarrow>
            e = ValueError ''Hash seed exceeded 32 bit.'')"
proof (rule conjI)
  from bucket_in_build [OF assms]
  show "case step3 (length source) source before
                (replicate (length source) 0, replicate (length source) None, 0, 0) of
           Inl e \<Rightarrow>
             createMinimalPerfectHash source = Inl e \<and>
             e = ValueError ''Hash seed exceeded 32 bit.'' \<and>
             (\<exists>pre b post G0 V0 nCheck0 nCollisions0. before = pre @ b # post \<and>
                step3 (length source) source pre
                  (replicate (length source) 0, replicate (length source) None, 0, 0) =
                  Inr ([], G0, V0, nCheck0, nCollisions0) \<and>
                (\<forall>s. 1 \<le> s \<and> s \<le> 0x7FFFFFFF \<longrightarrow> \<not> seedOK (length source) V0 b s))
         | Inr (rest, G0, V0, nCheck0, nCollisions0) \<Rightarrow>
             rest = [] \<and> length G0 = length source \<and> length V0 = length source \<and>
             ((\<forall>s. 1 \<le> s \<and> s \<le> 0x7FFFFFFF \<longrightarrow> \<not> seedOK (length source) V0 bucket s) \<longrightarrow>
                createMinimalPerfectHash source = Inl (ValueError ''Hash seed exceeded 32 bit.'')) \<and>
             (\<forall>seed. 1 \<le> seed \<and> seed \<le> 0x7FFFFFFF \<and> seedOK (length source) V0 bucket seed \<and>
                (\<forall>s. 1 \<le> s \<and> s < seed \<longrightarrow> \<not> seedOK (length source) V0 bucket s) \<longrightarrow>
                (\<exists>V1. step3 (length source) source (before @ [bucket])
                        (replicate (length source) 0, replicate (length source) None, 0, 0) =
                      Inr ([], G0[primary (length source) (bucket ! 0) := seed], V1,
                           nCheck0 + length bucket, nCollisions0 + nat (seed - 1)) \<and>
                   (\<forall>key \<in> set bucket. \<exists>bm. (key, bm) \<in> set source \<and>
                      V1 ! secondary (length source) key seed = Some (key, bm))) \<and>
                (\<forall>G V nc. createMinimalPerfectHash source = Inr (G, V, nc) \<longrightarrow>
                   G ! primary (length source) (bucket ! 0) = seed))"
    unfolding FNV1MASK_def .
next
  show "\<forall>e. createMinimalPerfectHash source = Inl e \<longrightarrow>
            e = ValueError ''Hash seed exceeded 32 bit.''"
  proof (intro allI impI)
    fix e
    assume "createMinimalPerfectHash source = Inl e"
    with build_correct [OF assms(1,2)] show "e = ValueError ''Hash seed exceeded 32 bit.''"
      by simp
  qed
qed

theorem C4_smallest_good_seed_or_error_witness:
  "sortBuckets (fillBuckets 5 [[0, 0, 0x41], [0, 0, 0x42], [0, 0, 0x43], [0, 0, 0x46],
       [0, 0xFF, 0xFD]] (replicate 5 [])) =
     [[[0, 0, 0x43], [0, 0xFF, 0xFD]]] @ [[0, 0, 0x41], [0, 0, 0x46]] # [[[0, 0, 0x42]], [], []] \<and>
   step3 5 [([0, 0, 0x41], [1]), ([0, 0, 0x42], [2]), ([0, 0, 0x43], [3]), ([0, 0, 0x46], [4]),
      ([0, 0xFF, 0xFD], [5])] [[[0, 0, 0x43], [0, 0xFF, 0xFD]]]
      (replicate 5 0, replicate 5 None, 0, 0) =
     Inr ([], [0, 1, 0, 0, 0],
          [Some ([0, 0xFF, 0xFD], [5]), None, None, None, Some ([0, 0, 0x43], [3])], 2, 0) \<and>
   \<not> seedOK 5 [Some ([0, 0xFF, 0xFD], [5]), None, None, None, Some ([0, 0, 0x43], [3])]
       [[0, 0, 0x41], [0, 0, 0x46]] 1 \<and>
   \<not> seedOK 5 [Some ([0, 0xFF, 0xFD], [5]), None, None, None, Some ([0, 0, 0x43], [3])]
       [[0, 0, 0x41], [0, 0, 0x46]] 2 \<and>
   \<not> seedOK 5 [Some ([0, 0xFF, 0xFD], [5]), None, None, None, Some ([0, 0, 0x43], [3])]
       [[0, 0, 0x41], [0, 0, 0x46]] 3 \<and>
   seedOK 5 [Some ([0, 0xFF, 0xFD], [5]), None, None, None, Some ([0, 0, 0x43], [3])]
       [[0, 0, 0x41], [0, 0, 0x46]] 4 \<and>
   (\<exists>V1. step3 5 [([0, 0, 0x41], [1]), ([0, 0, 0x42], [2]), ([0, 0, 0x43], [3]),
            ([0, 0, 0x46], [4]), ([0, 0xFF, 0xFD], [5])]
            ([[[0, 0, 0x43], [0, 0xFF, 0xFD]]] @ [[[0, 0, 0x41], [0, 0, 0x46]]])
            (replicate 5 0, replicate 5 None, 0, 0) =
          Inr ([], [0, 1, 0, 0, 0][primary 5 ([[0, 0, 0x41], [0, 0, 0x46]] ! 0) := 4], V1,
               2 + length [[0, 0, 0x41 :: byte], [0, 0, 0x46]], 0 + nat (4 - 1))) \<and>
   createMinimalPerfectHash
     [([0, 0, 0x41], [1]), ([0, 0, 0x42], [2]), ([0, 0, 0x43], [3]), ([0, 0, 0x46], [4]),
      ([0, 0xFF, 0xFD], [5])] =
   Inr ([0, 1, - 3, 4, 0],
        [Some ([0, 0xFF, 0xFD], [5]), Some ([0, 0, 0x41], [1]), Some ([0, 0, 0x42], [2]),
         Some ([0, 0, 0x46], [4]), Some ([0, 0, 0x43], [3])],
        3) \<and>
   [0, 1, - 3, 4, 0] ! primary 5 ([[0, 0, 0x41], [0, 0, 0x46]] ! 0) = (4 :: int)"
proof -
  let ?S = "[([0, 0, 0x41 :: byte], [1 :: byte]), ([0, 0, 0x42], [2]), ([0, 0, 0x43], [3]),
      ([0, 0, 0x46], [4]), ([0, 0xFF, 0xFD], [5])]"
  let ?A = "[[[0, 0, 0x43 :: byte], [0, 0xFF, 0xFD]]]"
  let ?B = "[[0, 0, 0x41 :: byte], [0, 0, 0x46]]"
  let ?V0 = "[Some ([0, 0xFF, 0xFD :: byte], [5 :: byte]), None, None, None,
      Some ([0, 0, 0x43], [3])]"
  have d: "distinct (map fst ?S)" by simp
  have ne: "?S \<noteq> []" by simp
  have l: "length ?S = 5" by simp
  have m: "map fst ?S = [[0, 0, 0x41], [0, 0, 0x42], [0, 0, 0x43], [0, 0, 0x46],
       [0, 0xFF, 0xFD]]" by simp
  have sp0: "sortBuckets (fillBuckets 5 [[0, 0, 0x41], [0, 0, 0x42], [0, 0, 0x43], [0, 0, 0x46],
       [0, 0xFF, 0xFD]] (replicate 5 [])) = ?A @ ?B # [[[0, 0, 0x42]], [], []]"
    by code_simp
  have sp: "sortBuckets (fillBuckets (length ?S) (map fst ?S) (replicate (length ?S) [])) =
            ?A @ ?B # [[[0, 0, 0x42]], [], []]"
    unfolding l m by (rule sp0)
  have len: "2 \<le> length ?B" by simp
  have s0: "step3 5 ?S ?A (replicate 5 0, replicate 5 None, 0, 0) =
            Inr ([], [0, 1, 0, 0, 0], ?V0, 2, 0)"
    by code_simp
  have bad1: "\<not> seedOK 5 ?V0 ?B 1" by code_simp
  have bad2: "\<not> seedOK 5 ?V0 ?B 2" by code_simp
  have bad3: "\<not> seedOK 5 ?V0 ?B 3" by code_simp
  have good: "seedOK 5 ?V0 ?B 4" by code_simp
  have least: "\<forall>s. 1 \<le> s \<and> s < 4 \<longrightarrow> \<not> seedOK 5 ?V0 ?B s"
  proof (intro allI impI)
    fix s :: int
    assume "1 \<le> s \<and> s < 4"
    then have "s = 1 \<or> s = 2 \<or> s = 3" by presburger
    with bad1 bad2 bad3 show "\<not> seedOK 5 ?V0 ?B s" by blast
  qed
  have b: "createMinimalPerfectHash ?S =
     Inr ([0, 1, - 3, 4, 0],
        [Some ([0, 0xFF, 0xFD], [5]), Some ([0, 0, 0x41], [1]), Some ([0, 0, 0x42], [2]),
         Some ([0, 0, 0x46], [4]), Some ([0, 0, 0x43], [3])],
        3)"
    by code_simp
  from C4_smallest_good_seed_or_error [OF d ne sp len, THEN conjunct1, unfolded l]
  have "\<forall>seed. 1 \<le> seed \<and> seed \<le> 0x7FFFFFFF \<and> seedOK 5 ?V0 ?B seed \<and>
          (\<forall>s. 1 \<le> s \<and> s < seed \<longrightarrow> \<not> seedOK 5 ?V0 ?B s) \<longrightarrow>
          (\<exists>V1. step3 5 ?S (?A @ [?B]) (replicate 5 0, replicate 5 None, 0, 0) =
                Inr ([], [0, 1, 0, 0, 0][primary 5 (?B ! 0) := seed], V1,
                     2 + length ?B, 0 + nat (seed - 1)) \<and>
             (\<forall>key \<in> set ?B. \<exists>bm. (key, bm) \<in> set ?S \<and>
                V1 ! secondary 5 key seed = Some (key, bm))) \<and>
          (\<forall>G V nc. createMinimalPerfectHash ?S = Inr (G, V, nc) \<longrightarrow>
             G ! primary 5 (?B ! 0) = seed)"
    by (simp only: s0 sum.case prod.case) blast
  moreover have "1 \<le> (4 :: int) \<and> (4 :: int) \<le> 0x7FFFFFFF \<and> seedOK 5 ?V0 ?B 4 \<and>
          (\<forall>s. 1 \<le> s \<and> s < 4 \<longrightarrow> \<not> seedOK 5 ?V0 ?B s)"
    using good least by simp
  ultimately have r: "(\<exists>V1. step3 5 ?S (?A @ [?B]) (replicate 5 0, replicate 5 None, 0, 0) =
                Inr ([], [0, 1, 0, 0, 0][primary 5 (?B ! 0) := 4], V1,
                     2 + length ?B, 0 + nat (4 - 1)) \<and>
             (\<forall>key \<in> set ?B. \<exists>bm. (key, bm) \<in> set ?S \<and>
                V1 ! secondary 5 key 4 = Some (key, bm))) \<and>
          (\<forall>G V nc. createMinimalPerfectHash ?S = Inr (G, V, nc) \<longrightarrow>
             G ! primary 5 (?B ! 0) = 4)"
    by blast
  from r b have g: "[0, 1, - 3, 4, 0] ! primary 5 (?B ! 0) = (4 :: int)"
    by blast
  from r have "\<exists>V1. step3 5 ?S (?A @ [?B]) (replicate 5 0, replicate 5 None, 0, 0) =
                Inr ([], [0, 1, 0, 0, 0][primary 5 (?B ! 0) := 4], V1,
                     2 + length ?B, 0 + nat (4 - 1))"
    by blast
  with sp0 s0 bad1 bad2 bad3 good b g show ?thesis
    by blast
qed

end
